theory Spec2Isabelle
  imports Complex_Main "HOL-Library.Word" "HOL-Library.Multiset" "HOL-Library.Monad_Syntax"
begin

section \<open>The augmented interval tree of IntervalTree.h\<close>

text \<open>
  A shallow embedding of \<^verbatim>\<open>src/Data_Structures/IntervalTree/IntervalTree.h\<close>.
  The class template is generic in the bound type \<open>T\<close>; the code only copies and
  compares values of \<open>T\<close> (\<open><\<close>, \<open>>\<close>, \<open><=\<close>, \<open>>=\<close>, \<open>std::max\<close>), so \<open>T\<close> is a
  type \<open>'a\<close> of class \<open>linorder\<close> here. A \<open>std::shared_ptr<Node<T>>\<close> is a value of
  the datatype \<open>Node\<close>, whose constructor \<open>Null\<close> is the null pointer; the code never
  shares a node between two parents. A payload \<open>std::shared_ptr<T>\<close> is an
  \<open>'a option\<close>, \<open>None\<close> being \<open>nullptr\<close>. Dereferencing a null node pointer is
  undefined behaviour in C++; the functions that can do it return an \<open>option\<close>, and
  \<open>None\<close> stands for that dereference.
\<close>

subsection \<open>Data model\<close>

record 'a Interval =
  low :: 'a
  high :: 'a

text \<open>\<open>struct Node\<close>: the fields in the order of the source; \<open>max\<close> is \<open>max_field\<close>.\<close>

datatype 'a Node =
    Null
  | Node (interval: "'a Interval") (max_field: 'a) (left: "'a Node") (right: "'a Node")
      (data: "'a option")

text \<open>
  \<open>class IntervalTree\<close>: \<open>Root\<close> and \<open>size\<close> (a \<open>size_t\<close>, taken as 64 bits wide;
  \<open>size++\<close> and \<open>size--\<close> wrap around).
\<close>

record 'a IntervalTree =
  Root :: "'a Node"
  size_field :: "64 word"

text \<open>The constructor \<open>IntervalTree() : Root(nullptr), size(0)\<close>.\<close>

definition IntervalTree_new :: "'a IntervalTree" where
  "IntervalTree_new = \<lparr>Root = Null, size_field = 0\<rparr>"

text \<open>The constructor \<open>Node(Interval<T> i, std::shared_ptr<T> d)\<close>.\<close>

definition Node_new :: "'a Interval \<Rightarrow> 'a option \<Rightarrow> 'a Node" where
  "Node_new i d = Node i (high i) Null Null d"

subsection \<open>Private helpers\<close>

text \<open>\<open>UpdateMax\<close> writes \<open>node->max\<close>; the model returns the node with the new field.\<close>

fun UpdateMax :: "'a::linorder Node \<Rightarrow> 'a Node" where
  "UpdateMax Null = Null"
| "UpdateMax (Node i m l r d) =
    (let m1 = high i;
         m2 = (case l of Null \<Rightarrow> m1 | Node _ lm _ _ _ \<Rightarrow> max m1 lm);
         m3 = (case r of Null \<Rightarrow> m2 | Node _ rm _ _ _ \<Rightarrow> max m2 rm)
     in Node i m3 l r d)"

text \<open>\<open>FindMin\<close>: the loop \<open>while(node && node->left) node = node->left\<close>.\<close>

fun FindMin :: "'a Node \<Rightarrow> 'a Node" where
  "FindMin Null = Null"
| "FindMin (Node i m Null r d) = Node i m Null r d"
| "FindMin (Node i m (Node li lm ll lr ld) r d) = FindMin (Node li lm ll lr ld)"

text \<open>
  \<open>Height\<close> and \<open>GetBalance\<close> return a C++ \<open>int\<close>; a height is at most the number of
  nodes, far below \<open>2^31\<close>, so the model uses unbounded integers.
\<close>

fun Height :: "'a Node \<Rightarrow> int" where
  "Height Null = 0"
| "Height (Node i m l r d) = 1 + max (Height l) (Height r)"

fun GetBalance :: "'a Node \<Rightarrow> int" where
  "GetBalance Null = 0"
| "GetBalance (Node i m l r d) = Height l - Height r"

text \<open>
  \<open>RotateRight\<close> reads \<open>newRoot->right\<close> with \<open>newRoot = node->left\<close> and no null
  check: on a node without a left child (and on a null node) it dereferences a null
  pointer, which is \<open>None\<close>. \<open>RotateLeft\<close> is the mirror image.
\<close>

fun RotateRight :: "'a::linorder Node \<Rightarrow> 'a Node option" where
  "RotateRight (Node i m (Node li lm ll lr ld) r d) =
     Some (UpdateMax (Node li lm ll (UpdateMax (Node i m lr r d)) ld))"
| "RotateRight _ = None"

fun RotateLeft :: "'a::linorder Node \<Rightarrow> 'a Node option" where
  "RotateLeft (Node i m l (Node ri rm rl rr rd) d) =
     Some (UpdateMax (Node ri rm (UpdateMax (Node i m l rl d)) rr rd))"
| "RotateLeft _ = None"

subsection \<open>Insertion\<close>

text \<open>
  The rebalancing dispatch at the end of the private \<open>Insert\<close> (source lines 371 to
  397), applied to the node after \<open>UpdateMax\<close>. \<open>node->left->interval.low\<close> and
  \<open>node->right->interval.low\<close> dereference the child.
\<close>

fun Insert_rebalance :: "'a::linorder Node \<Rightarrow> 'a Interval \<Rightarrow> 'a Node option" where
  "Insert_rebalance Null i = Some Null"
| "Insert_rebalance (Node ni m l r d) i =
    (let balance = GetBalance (Node ni m l r d) in
     if balance > 1 then
       (case l of
          Null \<Rightarrow> None
        | Node li _ _ _ _ \<Rightarrow>
            if low i < low li then RotateRight (Node ni m l r d)
            else do { l' \<leftarrow> RotateLeft l; RotateRight (Node ni m l' r d) })
     else if balance < - 1 then
       (case r of
          Null \<Rightarrow> None
        | Node ri _ _ _ _ \<Rightarrow>
            if low i > low ri then RotateLeft (Node ni m l r d)
            else do { r' \<leftarrow> RotateRight r; RotateLeft (Node ni m l r' d) })
     else Some (Node ni m l r d))"

text \<open>The private \<open>Insert(node, i, data)\<close>.\<close>

fun Insert_node :: "'a::linorder Node \<Rightarrow> 'a Interval \<Rightarrow> 'a option \<Rightarrow> 'a Node option" where
  "Insert_node Null i dat = Some (Node_new i dat)"
| "Insert_node (Node ni m l r d) i dat =
    do {
      node \<leftarrow> (if low i < low ni
                then do { l' \<leftarrow> Insert_node l i dat; Some (Node ni m l' r d) }
                else do { r' \<leftarrow> Insert_node r i dat; Some (Node ni m l r' d) });
      Insert_rebalance (UpdateMax node) i
    }"

subsection \<open>Removal\<close>

text \<open>
  The private \<open>Remove(node, i)\<close>. \<open>minNode->interval\<close> dereferences the result of
  \<open>FindMin\<close>.
\<close>

fun Remove_node :: "'a::linorder Node \<Rightarrow> 'a Interval \<Rightarrow> 'a Node option" where
  "Remove_node Null i = Some Null"
| "Remove_node (Node ni m l r d) i =
    (if low i < low ni then
       do { l' \<leftarrow> Remove_node l i; Some (UpdateMax (Node ni m l' r d)) }
     else if low i > low ni then
       do { r' \<leftarrow> Remove_node r i; Some (UpdateMax (Node ni m l r' d)) }
     else if l = Null then Some r
     else if r = Null then Some l
     else
       (case FindMin r of
          Null \<Rightarrow> None
        | Node mi _ _ _ md \<Rightarrow>
            do { r' \<leftarrow> Remove_node r mi; Some (UpdateMax (Node mi m l r' md)) }))"

subsection \<open>Queries\<close>

text \<open>
  The \<open>result\<close> vector passed by reference is an accumulator: each function returns
  the vector after the call; \<open>emplace_back\<close> appends.
\<close>

fun FindContaining ::
  "'a::linorder Node \<Rightarrow> 'a \<Rightarrow> ('a Interval \<times> 'a option) list \<Rightarrow> ('a Interval \<times> 'a option) list"
where
  "FindContaining Null v result = result"
| "FindContaining (Node i m l r d) v result =
    (let result1 = (if low i \<le> v \<and> high i \<ge> v then result @ [(i, d)] else result);
         result2 = (if l \<noteq> Null \<and> max_field l \<ge> v then FindContaining l v result1
                    else result1)
     in FindContaining r v result2)"

fun FindOverlapping ::
  "'a::linorder Node \<Rightarrow> 'a \<Rightarrow> 'a \<Rightarrow> ('a Interval \<times> 'a option) list
     \<Rightarrow> ('a Interval \<times> 'a option) list"
where
  "FindOverlapping Null lo hi result = result"
| "FindOverlapping (Node i m l r d) lo hi result =
    (let result1 = (if low i \<le> hi \<and> high i \<ge> lo then result @ [(i, d)] else result);
         result2 = (if l \<noteq> Null \<and> max_field l \<ge> lo then FindOverlapping l lo hi result1
                    else result1)
     in FindOverlapping r lo hi result2)"

text \<open>The private \<open>MaxHighOverlapping\<close>: \<open>maxValue\<close> is passed by reference.\<close>

fun MaxHighOverlapping_node :: "'a::linorder Node \<Rightarrow> 'a \<Rightarrow> 'a \<Rightarrow> 'a \<Rightarrow> 'a" where
  "MaxHighOverlapping_node Null lo hi maxValue = maxValue"
| "MaxHighOverlapping_node (Node i m l r d) lo hi maxValue =
    (let maxValue1 = (if low i \<le> hi \<and> high i \<ge> lo then max maxValue (high i)
                      else maxValue);
         maxValue2 = (if l \<noteq> Null \<and> max_field l \<ge> lo
                      then MaxHighOverlapping_node l lo hi maxValue1 else maxValue1)
     in MaxHighOverlapping_node r lo hi maxValue2)"

text \<open>
  The private \<open>FindByMinMax\<close> tests the node and then calls
  \<open>FindByMinMax(node->left, min, max)\<close> and \<open>FindByMinMax(node->right, min, max)\<close>:
  three arguments, without \<open>result\<close>. No overload takes three arguments (the public
  one takes two, the private one four), so these two statements cannot append anything
  to \<open>result\<close>: the vector after the call holds what the test of the node itself
  appended. The model keeps exactly that.
\<close>

fun FindByMinMax_node ::
  "'a::linorder Node \<Rightarrow> 'a \<Rightarrow> 'a \<Rightarrow> ('a Interval \<times> 'a option) list
     \<Rightarrow> ('a Interval \<times> 'a option) list"
where
  "FindByMinMax_node Null mn mx result = result"
| "FindByMinMax_node (Node i m l r d) mn mx result =
    (if high i \<ge> mn \<and> low i \<le> mx then result @ [(i, d)] else result)"

fun Contains_node :: "'a::linorder Node \<Rightarrow> 'a \<Rightarrow> bool" where
  "Contains_node Null v = False"
| "Contains_node (Node i m l r d) v =
    (if low i \<le> v \<and> high i \<ge> v then True
     else if l \<noteq> Null \<and> max_field l \<ge> v then Contains_node l v
     else Contains_node r v)"

fun Overlaps_node :: "'a::linorder Node \<Rightarrow> 'a \<Rightarrow> 'a \<Rightarrow> bool" where
  "Overlaps_node Null lo hi = False"
| "Overlaps_node (Node i m l r d) lo hi =
    (if low i \<le> hi \<and> high i \<ge> lo then True
     else if l \<noteq> Null \<and> max_field l \<ge> lo then Overlaps_node l lo hi
     else Overlaps_node r lo hi)"

text \<open>
  The private \<open>ToString\<close> writes to a \<open>std::ostringstream\<close>; the model returns the
  stream's contents after the call. \<open>oss << node->interval.low\<close> is the standard
  library's output operator of \<open>T\<close>, the parameter \<open>put\<close>.
\<close>

fun ToString_node :: "('a \<Rightarrow> string) \<Rightarrow> 'a Node \<Rightarrow> string \<Rightarrow> string" where
  "ToString_node put Null oss = oss"
| "ToString_node put (Node i m l r d) oss =
    (let oss1 = ToString_node put l oss;
         oss2 = oss1 @ ''['' @ put (low i) @ '', '' @ put (high i) @ ''] ''
     in ToString_node put r oss2)"

subsection \<open>The public interface\<close>

text \<open>
  A call of a mutating member function ends in one of three ways: it returns, with the
  tree in a new state; it throws \<open>std::invalid_argument\<close>, the tree being in the
  state it had reached when the exception left the function; or it dereferences a null
  pointer.
\<close>

datatype 'a Outcome =
    Returned "'a IntervalTree"
  | Thrown_invalid_argument "'a IntervalTree"
  | Null_dereference

text \<open>\<open>void Insert(Interval<T> i, std::shared_ptr<T> data)\<close>.\<close>

definition Insert :: "'a::linorder IntervalTree \<Rightarrow> 'a Interval \<Rightarrow> 'a option \<Rightarrow> 'a Outcome" where
  "Insert t i dat =
    (if low i > high i then Thrown_invalid_argument t
     else
       (case Insert_node (Root t) i dat of
          None \<Rightarrow> Null_dereference
        | Some n \<Rightarrow> Returned (t\<lparr>Root := n, size_field := size_field t + 1\<rparr>)))"

text \<open>\<open>void Insert(T low, T high, std::shared_ptr<T> data)\<close>.\<close>

definition Insert_low_high ::
  "'a::linorder IntervalTree \<Rightarrow> 'a \<Rightarrow> 'a \<Rightarrow> 'a option \<Rightarrow> 'a Outcome" where
  "Insert_low_high t lo hi dat = Insert t \<lparr>low = lo, high = hi\<rparr> dat"

definition Contains :: "'a::linorder IntervalTree \<Rightarrow> 'a \<Rightarrow> bool" where
  "Contains t v = Contains_node (Root t) v"

definition Overlaps :: "'a::linorder IntervalTree \<Rightarrow> 'a \<Rightarrow> 'a \<Rightarrow> bool" where
  "Overlaps t lo hi = Overlaps_node (Root t) lo hi"

text \<open>\<open>void Remove(Interval<T> i)\<close>.\<close>

definition Remove :: "'a::linorder IntervalTree \<Rightarrow> 'a Interval \<Rightarrow> 'a Outcome" where
  "Remove t i =
    (if Contains t (low i) then
       (case Remove_node (Root t) i of
          None \<Rightarrow> Null_dereference
        | Some n \<Rightarrow> Returned (t\<lparr>Root := n, size_field := size_field t - 1\<rparr>))
     else Returned t)"

text \<open>\<open>Update\<close> calls \<open>Remove(oldInterval)\<close> and then \<open>Insert(newInterval, newData)\<close>.\<close>

definition Update ::
  "'a::linorder IntervalTree \<Rightarrow> 'a Interval \<Rightarrow> 'a Interval \<Rightarrow> 'a option \<Rightarrow> 'a Outcome" where
  "Update t oldInterval newInterval newData =
    (case Remove t oldInterval of
       Returned t' \<Rightarrow> Insert t' newInterval newData
     | Thrown_invalid_argument t' \<Rightarrow> Thrown_invalid_argument t'
     | Null_dereference \<Rightarrow> Null_dereference)"

definition Clear :: "'a IntervalTree \<Rightarrow> 'a Outcome" where
  "Clear t = Returned (t\<lparr>Root := Null, size_field := 0\<rparr>)"

definition Size :: "'a IntervalTree \<Rightarrow> 64 word" where
  "Size t = size_field t"

definition IsEmpty :: "'a IntervalTree \<Rightarrow> bool" where
  "IsEmpty t = (Root t = Null)"

definition Containing :: "'a::linorder IntervalTree \<Rightarrow> 'a \<Rightarrow> ('a Interval \<times> 'a option) list" where
  "Containing t v = FindContaining (Root t) v []"

definition Overlapping ::
  "'a::linorder IntervalTree \<Rightarrow> 'a \<Rightarrow> 'a \<Rightarrow> ('a Interval \<times> 'a option) list" where
  "Overlapping t lo hi = FindOverlapping (Root t) lo hi []"

text \<open>
  The public \<open>MaxHighOverlapping\<close> starts from \<open>std::numeric_limits<T>::min()\<close>, a
  constant of the standard library that depends on \<open>T\<close>: the parameter
  \<open>numeric_limits_min\<close>. For the default \<open>T = int\<close> it is \<open>- 2^31\<close>, the least
  \<open>int\<close>; for a floating-point \<open>T\<close> it is the smallest positive normalised value.
\<close>

definition MaxHighOverlapping :: "'a::linorder \<Rightarrow> 'a IntervalTree \<Rightarrow> 'a \<Rightarrow> 'a \<Rightarrow> 'a" where
  "MaxHighOverlapping numeric_limits_min t lo hi =
     MaxHighOverlapping_node (Root t) lo hi numeric_limits_min"

definition FindByMinMax ::
  "'a::linorder IntervalTree \<Rightarrow> 'a \<Rightarrow> 'a \<Rightarrow> ('a Interval \<times> 'a option) list" where
  "FindByMinMax t mn mx = FindByMinMax_node (Root t) mn mx []"

definition ToString :: "('a \<Rightarrow> string) \<Rightarrow> 'a IntervalTree \<Rightarrow> string" where
  "ToString put t = ToString_node put (Root t) []"

subsection \<open>Sequences of mutating calls\<close>

datatype 'a Call =
    Call_Insert "'a Interval" "'a option"
  | Call_Insert_low_high 'a 'a "'a option"
  | Call_Remove "'a Interval"
  | Call_Update "'a Interval" "'a Interval" "'a option"
  | Call_Clear

fun call :: "'a::linorder IntervalTree \<Rightarrow> 'a Call \<Rightarrow> 'a Outcome" where
  "call t (Call_Insert i dat) = Insert t i dat"
| "call t (Call_Insert_low_high lo hi dat) = Insert_low_high t lo hi dat"
| "call t (Call_Remove i) = Remove t i"
| "call t (Call_Update old new dat) = Update t old new dat"
| "call t Call_Clear = Clear t"

text \<open>
  A client runs the calls one after the other and catches \<open>std::invalid_argument\<close>,
  going on with the tree as the throwing call left it. A null dereference ends the run
  with no tree: \<open>None\<close>.
\<close>

fun calls :: "'a::linorder IntervalTree \<Rightarrow> 'a Call list \<Rightarrow> 'a IntervalTree option" where
  "calls t [] = Some t"
| "calls t (c # cs) =
    (case call t c of
       Returned t' \<Rightarrow> calls t' cs
     | Thrown_invalid_argument t' \<Rightarrow> calls t' cs
     | Null_dereference \<Rightarrow> None)"

subsection \<open>What the tree stores\<close>

text \<open>
  The nodes of a tree in-order (left subtree, node, right subtree), each as its pair of
  interval and payload; the nodes in the order the queries visit them (node, left
  subtree, right subtree); the number of nodes reachable from a node.
\<close>

fun entries :: "'a Node \<Rightarrow> ('a Interval \<times> 'a option) list" where
  "entries Null = []"
| "entries (Node i m l r d) = entries l @ (i, d) # entries r"

fun preorder :: "'a Node \<Rightarrow> ('a Interval \<times> 'a option) list" where
  "preorder Null = []"
| "preorder (Node i m l r d) = (i, d) # preorder l @ preorder r"

fun count_nodes :: "'a Node \<Rightarrow> nat" where
  "count_nodes Null = 0"
| "count_nodes (Node i m l r d) = 1 + count_nodes l + count_nodes r"

definition lows :: "'a Node \<Rightarrow> 'a list" where
  "lows t = map (\<lambda>e. low (fst e)) (entries t)"

definition highs :: "'a Node \<Rightarrow> 'a list" where
  "highs t = map (\<lambda>e. high (fst e)) (entries t)"

text \<open>
  The augmentation invariant in its two forms: \<open>max\<close> of every node is the maximum of
  its own \<open>high\<close> and the \<open>max\<close> of each child that is present (\<open>max_local\<close>); \<open>max\<close> of
  every node is the greatest \<open>high\<close> among the node and its descendants
  (\<open>max_subtree\<close>).
\<close>

fun max_local :: "'a::linorder Node \<Rightarrow> bool" where
  "max_local Null = True"
| "max_local (Node i m l r d) =
    (m = (let m1 = high i;
              m2 = (if l = Null then m1 else max m1 (max_field l))
          in if r = Null then m2 else max m2 (max_field r))
     \<and> max_local l \<and> max_local r)"

fun max_subtree :: "'a::linorder Node \<Rightarrow> bool" where
  "max_subtree Null = True"
| "max_subtree (Node i m l r d) =
    (m = Max (set (highs (Node i m l r d))) \<and> max_subtree l \<and> max_subtree r)"

text \<open>The AVL balance condition at every node.\<close>

fun balanced :: "'a Node \<Rightarrow> bool" where
  "balanced Null = True"
| "balanced (Node i m l r d) =
    (\<bar>Height l - Height r\<bar> \<le> 1 \<and> balanced l \<and> balanced r)"

definition contains_point :: "'a::linorder \<Rightarrow> 'a Interval \<times> 'a option \<Rightarrow> bool" where
  "contains_point v e = (low (fst e) \<le> v \<and> v \<le> high (fst e))"

definition overlaps_range :: "'a::linorder \<Rightarrow> 'a \<Rightarrow> 'a Interval \<times> 'a option \<Rightarrow> bool" where
  "overlaps_range lo hi e = (low (fst e) \<le> hi \<and> high (fst e) \<ge> lo)"

text \<open>
  How an insertion of \<open>i\<close> that made a subtree one level higher left it: the root is the
  node it was, and the side \<open>i\<close> went to (left for \<open>i.low\<close> below the root's \<open>low\<close>,
  right otherwise) is the higher one.
\<close>

fun taller_side :: "'a::linorder Interval \<Rightarrow> 'a Node \<Rightarrow> 'a Node \<Rightarrow> bool" where
  "taller_side i Null t' = True"
| "taller_side i (Node ni m l r d) Null = False"
| "taller_side i (Node ni m l r d) (Node ni' m' l' r' d') =
     (ni' = ni \<and> (if low i < low ni then Height r' < Height l' else Height l' < Height r'))"

text \<open>The stored pairs that overlap a range, in in-order.\<close>

definition overlapping_entries ::
  "'a::linorder IntervalTree \<Rightarrow> 'a \<Rightarrow> 'a \<Rightarrow> ('a Interval \<times> 'a option) list" where
  "overlapping_entries t lo hi = filter (overlaps_range lo hi) (entries (Root t))"

text \<open>
  The two invariants the queries rely on: the augmentation, and the \<open>low\<close> bounds in
  ascending (not strictly ascending) order along the in-order traversal.
\<close>

definition well_formed :: "'a::linorder IntervalTree \<Rightarrow> bool" where
  "well_formed t = (max_local (Root t) \<and> sorted (lows (Root t)))"

text \<open>The text \<open>"[low, high] "\<close> of one interval.\<close>

definition render_interval :: "('a \<Rightarrow> string) \<Rightarrow> 'a Interval \<Rightarrow> string" where
  "render_interval put i = ''['' @ put (low i) @ '', '' @ put (high i) @ ''] ''"

text \<open>
  For \<open>T = int\<close>, \<open>oss << x\<close> writes \<open>x\<close> in decimal (the stream has its default
  flags): a minus sign for a negative number, then the digits without leading zeros.
\<close>

definition digit_char :: "nat \<Rightarrow> char" where
  "digit_char n = ''0123456789'' ! n"

fun put_nat :: "nat \<Rightarrow> string" where
  "put_nat n = (if n < 10 then [digit_char n] else put_nat (n div 10) @ [digit_char (n mod 10)])"

definition put_int :: "int \<Rightarrow> string" where
  "put_int k = (if k < 0 then CHR ''-'' # put_nat (nat (- k)) else put_nat (nat k))"

text \<open>
  For \<open>T = double\<close> (IEEE 754 binary64), \<open>std::numeric_limits<double>::min()\<close> is
  \<open>2^-1022\<close>. The code only compares and copies values of \<open>T\<close>, so a \<open>double\<close> that
  is a finite binary fraction is modelled as the real number it denotes.
\<close>

definition numeric_limits_double_min :: real where
  "numeric_limits_double_min = 1 / 2 ^ 1022"

text \<open>\<open>Interval(T l, T h)\<close>, used to write concrete inputs.\<close>

definition Interval_new :: "'a \<Rightarrow> 'a \<Rightarrow> 'a Interval" where
  "Interval_new l h = \<lparr>low = l, high = h\<rparr>"

section \<open>Properties of the helpers\<close>

subsection \<open>\<open>UpdateMax\<close> and the rotations\<close>

lemma entries_UpdateMax: "entries (UpdateMax t) = entries t"
  by (cases t) (simp_all add: Let_def)

lemma UpdateMax_eq_Null: "(UpdateMax t = Null) = (t = Null)"
  by (cases t) (simp_all add: Let_def)

lemma max_local_UpdateMax:
  "max_local l \<Longrightarrow> max_local r \<Longrightarrow> max_local (UpdateMax (Node i m l r d))"
  by (cases l; cases r) (simp_all add: Let_def)

lemma max_local_children: "max_local (Node i m l r d) \<Longrightarrow> max_local l \<and> max_local r"
  by simp

lemma RotateRight_entries: "RotateRight t = Some t' \<Longrightarrow> entries t' = entries t"
  by (induction t rule: RotateRight.induct) (auto simp: entries_UpdateMax Let_def)

lemma RotateLeft_entries: "RotateLeft t = Some t' \<Longrightarrow> entries t' = entries t"
  by (induction t rule: RotateLeft.induct) (auto simp: entries_UpdateMax Let_def)

lemma RotateRight_max_local:
  assumes "RotateRight (Node i m l r d) = Some t'" "max_local l" "max_local r"
  shows "max_local t'"
proof (cases l)
  case Null
  with assms show ?thesis by simp
next
  case (Node li lm ll lr ld)
  with assms have "max_local ll" "max_local lr" by simp_all
  then have "max_local (UpdateMax (Node li lm ll (UpdateMax (Node i m lr r d)) ld))"
    using assms(3) by (intro max_local_UpdateMax [of ll] max_local_UpdateMax [of lr r])
  with assms(1) Node show ?thesis by simp
qed

lemma RotateLeft_max_local:
  assumes "RotateLeft (Node i m l r d) = Some t'" "max_local l" "max_local r"
  shows "max_local t'"
proof (cases r)
  case Null
  with assms show ?thesis by simp
next
  case (Node ri rm rl rr rd)
  with assms have "max_local rl" "max_local rr" by simp_all
  then have "max_local (UpdateMax (Node ri rm (UpdateMax (Node i m l rl d)) rr rd))"
    using assms(2) by (intro max_local_UpdateMax [of _ rr] max_local_UpdateMax [of l rl])
  with assms(1) Node show ?thesis by simp
qed

lemma Insert_rebalance_cases:
  assumes "Insert_rebalance (Node ni m l r d) i = Some t'"
  obtains (same) "t' = Node ni m l r d"
    | (r1) "RotateRight (Node ni m l r d) = Some t'"
    | (l1) "RotateLeft (Node ni m l r d) = Some t'"
    | (lr) l' where "RotateLeft l = Some l'" "RotateRight (Node ni m l' r d) = Some t'"
    | (rl) r' where "RotateRight r = Some r'" "RotateLeft (Node ni m l r' d) = Some t'"
proof -
  let ?n = "Node ni m l r d"
  from assms have
    "(if GetBalance ?n > 1 then
       (case l of
          Null \<Rightarrow> None
        | Node li _ _ _ _ \<Rightarrow>
            if low i < low li then RotateRight ?n
            else do { l' \<leftarrow> RotateLeft l; RotateRight (Node ni m l' r d) })
     else if GetBalance ?n < - 1 then
       (case r of
          Null \<Rightarrow> None
        | Node ri _ _ _ _ \<Rightarrow>
            if low i > low ri then RotateLeft ?n
            else do { r' \<leftarrow> RotateRight r; RotateLeft (Node ni m l r' d) })
     else Some ?n) = Some t'"
    by (simp only: Insert_rebalance.simps Let_def)
  then show thesis
    by (cases l; cases r)
       (auto simp only: Node.case option.inject option.distinct bind_eq_Some_conv
          intro: same r1 l1 lr rl split: if_splits)
qed

lemma Insert_rebalance_entries:
  assumes "Insert_rebalance t i = Some t'"
  shows "entries t' = entries t"
proof (cases t)
  case Null
  with assms show ?thesis by simp
next
  case (Node ni m l r d)
  from assms [unfolded Node] show ?thesis
  proof (cases rule: Insert_rebalance_cases)
    case same
    with Node show ?thesis by simp
  next
    case r1
    with Node show ?thesis by (simp only: RotateRight_entries)
  next
    case l1
    with Node show ?thesis by (simp only: RotateLeft_entries)
  next
    case (lr l')
    then have "entries t' = entries (Node ni m l' r d)" "entries l' = entries l"
      by (simp_all only: RotateRight_entries RotateLeft_entries)
    with Node show ?thesis by simp
  next
    case (rl r')
    then have "entries t' = entries (Node ni m l r' d)" "entries r' = entries r"
      by (simp_all only: RotateRight_entries RotateLeft_entries)
    with Node show ?thesis by simp
  qed
qed

lemma RotateLeft_max_local_root: "RotateLeft t = Some t' \<Longrightarrow> max_local t \<Longrightarrow> max_local t'"
proof (cases t)
  case Null
  then show "RotateLeft t = Some t' \<Longrightarrow> max_local t'" by simp
next
  case (Node i m l r d)
  assume "RotateLeft t = Some t'" "max_local t"
  then show "max_local t'"
    using RotateLeft_max_local [of i m l r d t'] Node by simp
qed

lemma RotateRight_max_local_root: "RotateRight t = Some t' \<Longrightarrow> max_local t \<Longrightarrow> max_local t'"
proof (cases t)
  case Null
  then show "RotateRight t = Some t' \<Longrightarrow> max_local t'" by simp
next
  case (Node i m l r d)
  assume "RotateRight t = Some t'" "max_local t"
  then show "max_local t'"
    using RotateRight_max_local [of i m l r d t'] Node by simp
qed

lemma Insert_rebalance_max_local:
  assumes "Insert_rebalance t i = Some t'" "max_local t"
  shows "max_local t'"
proof (cases t)
  case Null
  with assms show ?thesis by simp
next
  case (Node ni m l r d)
  have ml: "max_local l" and mr: "max_local r"
    using assms(2) Node by simp_all
  from assms(1) [unfolded Node] show ?thesis
  proof (cases rule: Insert_rebalance_cases)
    case same
    with assms(2) Node show ?thesis by simp
  next
    case r1
    then show ?thesis using ml mr by (rule RotateRight_max_local)
  next
    case l1
    then show ?thesis using ml mr by (rule RotateLeft_max_local)
  next
    case (lr l')
    from lr(1) ml have "max_local l'" by (rule RotateLeft_max_local_root)
    with lr(2) show ?thesis using mr by (rule RotateRight_max_local)
  next
    case (rl r')
    from rl(1) mr have "max_local r'" by (rule RotateRight_max_local_root)
    with rl(2) ml show ?thesis by (rule RotateLeft_max_local)
  qed
qed

lemma Insert_node_max_local:
  "Insert_node t i dat = Some t' \<Longrightarrow> max_local t \<Longrightarrow> max_local t'"
proof (induction t arbitrary: t')
  case Null
  then show ?case by (auto simp: Node_new_def)
next
  case (Node ni m l r d)
  show ?case
  proof (cases "low i < low ni")
    case True
    with Node.prems(1) obtain l' where
      l': "Insert_node l i dat = Some l'"
      and rb: "Insert_rebalance (UpdateMax (Node ni m l' r d)) i = Some t'"
      by (auto simp: bind_eq_Some_conv simp del: UpdateMax.simps Insert_rebalance.simps)
    from Node.prems(2) have "max_local l" "max_local r" by simp_all
    with Node.IH(1) [OF l'] have "max_local (UpdateMax (Node ni m l' r d))"
      by (intro max_local_UpdateMax)
    with rb show ?thesis by (rule Insert_rebalance_max_local)
  next
    case False
    with Node.prems(1) obtain r' where
      r': "Insert_node r i dat = Some r'"
      and rb: "Insert_rebalance (UpdateMax (Node ni m l r' d)) i = Some t'"
      by (auto simp: bind_eq_Some_conv simp del: UpdateMax.simps Insert_rebalance.simps)
    from Node.prems(2) have "max_local l" "max_local r" by simp_all
    with Node.IH(2) [OF r'] have "max_local (UpdateMax (Node ni m l r' d))"
      by (intro max_local_UpdateMax)
    with rb show ?thesis by (rule Insert_rebalance_max_local)
  qed
qed

lemma Insert_node_entries:
  "Insert_node t i dat = Some t' \<Longrightarrow> mset (entries t') = add_mset (i, dat) (mset (entries t))"
proof (induction t arbitrary: t')
  case Null
  then show ?case by (auto simp: Node_new_def)
next
  case (Node ni m l r d)
  show ?case
  proof (cases "low i < low ni")
    case True
    with Node.prems(1) obtain l' where
      l': "Insert_node l i dat = Some l'"
      and rb: "Insert_rebalance (UpdateMax (Node ni m l' r d)) i = Some t'"
      by (auto simp: bind_eq_Some_conv simp del: UpdateMax.simps Insert_rebalance.simps)
    from rb have "entries t' = entries (Node ni m l' r d)"
      by (simp only: Insert_rebalance_entries entries_UpdateMax)
    with Node.IH(1) [OF l'] show ?thesis by simp
  next
    case False
    with Node.prems(1) obtain r' where
      r': "Insert_node r i dat = Some r'"
      and rb: "Insert_rebalance (UpdateMax (Node ni m l r' d)) i = Some t'"
      by (auto simp: bind_eq_Some_conv simp del: UpdateMax.simps Insert_rebalance.simps)
    from rb have "entries t' = entries (Node ni m l r' d)"
      by (simp only: Insert_rebalance_entries entries_UpdateMax)
    with Node.IH(2) [OF r'] show ?thesis by simp
  qed
qed

lemma sorted_lows_Node:
  "sorted (lows (Node i m l r d)) \<longleftrightarrow>
     sorted (lows l) \<and> sorted (lows r) \<and> (\<forall>x \<in> set (lows l). x \<le> low i)
       \<and> (\<forall>y \<in> set (lows r). low i \<le> y)"
proof -
  have "low (fst a) \<le> low (fst b)"
    if "\<forall>x \<in> set (entries l). low (fst x) \<le> low i"
      and "\<forall>y \<in> set (entries r). low i \<le> low (fst y)"
      and "a \<in> set (entries l)" and "b \<in> set (entries r)" for a b
    using that order_trans [of "low (fst a)" "low i" "low (fst b)"] by blast
  then show ?thesis
    by (auto simp: lows_def sorted_append)
qed

lemma lows_Null: "lows Null = []"
  by (simp add: lows_def)

lemma Insert_node_set_lows:
  "Insert_node t i dat = Some t' \<Longrightarrow> set (lows t') = insert (low i) (set (lows t))"
proof -
  assume "Insert_node t i dat = Some t'"
  then have "mset (entries t') = add_mset (i, dat) (mset (entries t))"
    by (rule Insert_node_entries)
  then have "set (entries t') = insert (i, dat) (set (entries t))"
    by (metis set_mset_add_mset_insert set_mset_mset)
  then show ?thesis by (simp add: lows_def)
qed

lemma Insert_node_sorted:
  "Insert_node t i dat = Some t' \<Longrightarrow> sorted (lows t) \<Longrightarrow> sorted (lows t')"
proof (induction t arbitrary: t')
  case Null
  then show ?case by (auto simp: Node_new_def lows_def)
next
  case (Node ni m l r d)
  from Node.prems(2) have
    sl: "sorted (lows l)" and sr: "sorted (lows r)"
    and bl: "\<forall>x \<in> set (lows l). x \<le> low ni" and br: "\<forall>y \<in> set (lows r). low ni \<le> y"
    by (simp_all add: sorted_lows_Node)
  show ?case
  proof (cases "low i < low ni")
    case True
    with Node.prems(1) obtain l' where
      l': "Insert_node l i dat = Some l'"
      and rb: "Insert_rebalance (UpdateMax (Node ni m l' r d)) i = Some t'"
      by (auto simp: bind_eq_Some_conv simp del: UpdateMax.simps Insert_rebalance.simps)
    from rb have "entries t' = entries (Node ni m l' r d)"
      by (simp only: Insert_rebalance_entries entries_UpdateMax)
    then have eq: "lows t' = lows (Node ni m l' r d)" by (simp only: lows_def)
    have "sorted (lows l')" using l' sl by (rule Node.IH(1))
    moreover have "\<forall>x \<in> set (lows l'). x \<le> low ni"
      using bl True by (simp add: Insert_node_set_lows [OF l'])
    ultimately have "sorted (lows (Node ni m l' r d))"
      using sr br by (simp only: sorted_lows_Node simp_thms)
    with eq show ?thesis by simp
  next
    case False
    with Node.prems(1) obtain r' where
      r': "Insert_node r i dat = Some r'"
      and rb: "Insert_rebalance (UpdateMax (Node ni m l r' d)) i = Some t'"
      by (auto simp: bind_eq_Some_conv simp del: UpdateMax.simps Insert_rebalance.simps)
    from rb have "entries t' = entries (Node ni m l r' d)"
      by (simp only: Insert_rebalance_entries entries_UpdateMax)
    then have eq: "lows t' = lows (Node ni m l r' d)" by (simp only: lows_def)
    have "sorted (lows r')" using r' sr by (rule Node.IH(2))
    moreover have "\<forall>y \<in> set (lows r'). low ni \<le> y"
      using br False by (simp add: Insert_node_set_lows [OF r'])
    ultimately have "sorted (lows (Node ni m l r' d))"
      using sl bl by (simp only: sorted_lows_Node simp_thms)
    with eq show ?thesis by simp
  qed
qed

subsection \<open>Removal keeps the invariants\<close>

lemma FindMin_not_Null: "t \<noteq> Null \<Longrightarrow> FindMin t \<noteq> Null"
  by (induction t rule: FindMin.induct) simp_all

lemma FindMin_entries:
  "FindMin t = Node mi mm ml mr md \<Longrightarrow> \<exists>es. entries t = (mi, md) # es"
proof (induction t rule: FindMin.induct)
  case 1
  then show ?case by simp
next
  case (2 i m r d)
  then show ?case by simp
next
  case (3 i m li lm ll lr ld r d)
  then obtain es where "entries (Node li lm ll lr ld) = (mi, md) # es" by auto
  then have "entries (Node i m (Node li lm ll lr ld) r d) = (mi, md) # (es @ (i, d) # entries r)"
    by simp
  then show ?case by blast
qed

lemma Remove_node_cases:
  assumes "Remove_node (Node ni m l r d) i = Some t'"
  obtains
    (left) l' where "low i < low ni" "Remove_node l i = Some l'"
      "t' = UpdateMax (Node ni m l' r d)"
  | (right) r' where "low ni < low i" "Remove_node r i = Some r'"
      "t' = UpdateMax (Node ni m l r' d)"
  | (noleft) "low i = low ni" "l = Null" "t' = r"
  | (noright) "low i = low ni" "l \<noteq> Null" "r = Null" "t' = l"
  | (two) mi mm ml mr md r' where "low i = low ni" "l \<noteq> Null" "r \<noteq> Null"
      "FindMin r = Node mi mm ml mr md" "Remove_node r mi = Some r'"
      "t' = UpdateMax (Node mi m l r' md)"
proof (cases "FindMin r")
  case Null
  with assms show ?thesis
    by (auto simp only: Remove_node.simps Node.case option.inject option.distinct
        bind_eq_Some_conv not_less intro: left right noleft noright split: if_splits)
next
  case (Node mi mm ml mr md)
  with assms show ?thesis
    by (auto simp only: Remove_node.simps Node.case option.inject option.distinct
        bind_eq_Some_conv not_less
        intro: left right noleft noright two [OF _ _ _ Node] split: if_splits)
qed

lemma Remove_node_total: "\<exists>t'. Remove_node t i = Some t'"
proof (induction t arbitrary: i)
  case Null
  show ?case by simp
next
  case (Node ni m l r d)
  obtain l' where l': "Remove_node l i = Some l'" using Node.IH(1) by blast
  obtain r' where r': "Remove_node r i = Some r'" using Node.IH(2) by blast
  show ?case
  proof (cases "r = Null")
    case True
    with l' r' show ?thesis by (simp del: UpdateMax.simps)
  next
    case False
    then obtain mi mm ml mr md where fm: "FindMin r = Node mi mm ml mr md"
      using FindMin_not_Null [of r] by (cases "FindMin r") auto
    obtain r'' where "Remove_node r mi = Some r''" using Node.IH(2) by blast
    with l' r' fm show ?thesis by (simp del: UpdateMax.simps)
  qed
qed

lemma Remove_node_max_local:
  "Remove_node t i = Some t' \<Longrightarrow> max_local t \<Longrightarrow> max_local t'"
proof (induction t arbitrary: i t')
  case Null
  then show ?case by simp
next
  case (Node ni m l r d)
  from Node.prems(2) have ml: "max_local l" and mr: "max_local r" by simp_all
  from Node.prems(1) show ?case
  proof (cases rule: Remove_node_cases)
    case (left l')
    from left(2) ml have "max_local l'" by (rule Node.IH(1))
    with left(3) mr show ?thesis by (simp only: max_local_UpdateMax)
  next
    case (right r')
    from right(2) mr have "max_local r'" by (rule Node.IH(2))
    with right(3) ml show ?thesis by (simp only: max_local_UpdateMax)
  next
    case noleft
    with mr show ?thesis by simp
  next
    case noright
    with ml show ?thesis by simp
  next
    case (two mi mm mml mmr md r')
    from two(5) mr have "max_local r'" by (rule Node.IH(2))
    with two(6) ml show ?thesis by (simp only: max_local_UpdateMax)
  qed
qed

lemma Remove_node_subset:
  "Remove_node t i = Some t' \<Longrightarrow> set (entries t') \<subseteq> set (entries t)"
proof (induction t arbitrary: i t')
  case Null
  then show ?case by simp
next
  case (Node ni m l r d)
  from Node.prems(1) show ?case
  proof (cases rule: Remove_node_cases)
    case (left l')
    from left(2) have "set (entries l') \<subseteq> set (entries l)" by (rule Node.IH(1))
    moreover from left(3) have "entries t' = entries (Node ni m l' r d)"
      by (simp only: entries_UpdateMax)
    ultimately show ?thesis by auto
  next
    case (right r')
    from right(2) have "set (entries r') \<subseteq> set (entries r)" by (rule Node.IH(2))
    moreover from right(3) have "entries t' = entries (Node ni m l r' d)"
      by (simp only: entries_UpdateMax)
    ultimately show ?thesis by auto
  next
    case noleft
    then show ?thesis by auto
  next
    case noright
    then show ?thesis by auto
  next
    case (two mi mm mml mmr md r')
    from two(5) have "set (entries r') \<subseteq> set (entries r)" by (rule Node.IH(2))
    moreover from two(4) have "(mi, md) \<in> set (entries r)"
      using FindMin_entries [of r mi mm mml mmr md] by auto
    moreover from two(6) have "entries t' = entries (Node mi m l r' md)"
      by (simp only: entries_UpdateMax)
    ultimately show ?thesis by auto
  qed
qed

lemma lows_UpdateMax: "lows (UpdateMax t) = lows t"
  by (simp add: lows_def entries_UpdateMax)

lemma Remove_node_lows_subset:
  "Remove_node t i = Some t' \<Longrightarrow> set (lows t') \<subseteq> set (lows t)"
  using Remove_node_subset [of t i t'] by (auto simp: lows_def)

lemma Remove_node_sorted:
  "Remove_node t i = Some t' \<Longrightarrow> sorted (lows t) \<Longrightarrow> sorted (lows t')"
proof (induction t arbitrary: i t')
  case Null
  then show ?case by simp
next
  case (Node ni m l r d)
  from Node.prems(2) have
    sl: "sorted (lows l)" and sr: "sorted (lows r)"
    and bl: "\<forall>x \<in> set (lows l). x \<le> low ni" and br: "\<forall>y \<in> set (lows r). low ni \<le> y"
    by (simp_all add: sorted_lows_Node)
  from Node.prems(1) show ?case
  proof (cases rule: Remove_node_cases)
    case (left l')
    from left(2) sl have "sorted (lows l')" by (rule Node.IH(1))
    moreover have "\<forall>x \<in> set (lows l'). x \<le> low ni"
      using bl Remove_node_lows_subset [OF left(2)] by blast
    ultimately have "sorted (lows (Node ni m l' r d))"
      using sr br by (simp only: sorted_lows_Node simp_thms)
    with left(3) show ?thesis by (simp only: lows_UpdateMax)
  next
    case (right r')
    from right(2) sr have "sorted (lows r')" by (rule Node.IH(2))
    moreover have "\<forall>y \<in> set (lows r'). low ni \<le> y"
      using br Remove_node_lows_subset [OF right(2)] by blast
    ultimately have "sorted (lows (Node ni m l r' d))"
      using sl bl by (simp only: sorted_lows_Node simp_thms)
    with right(3) show ?thesis by (simp only: lows_UpdateMax)
  next
    case noleft
    with sr show ?thesis by simp
  next
    case noright
    with sl show ?thesis by simp
  next
    case (two mi mm mml mmr md r')
    from two(4) obtain es where es: "entries r = (mi, md) # es"
      using FindMin_entries [OF two(4)] by blast
    then have lr: "lows r = low mi # map (\<lambda>e. low (fst e)) es" by (simp add: lows_def)
    have mi_ge: "low ni \<le> low mi" using br lr by simp
    have mi_le: "\<forall>y \<in> set (lows r). low mi \<le> y" using sr lr by auto
    from two(5) sr have "sorted (lows r')" by (rule Node.IH(2))
    moreover have "\<forall>y \<in> set (lows r'). low mi \<le> y"
      using mi_le Remove_node_lows_subset [OF two(5)] by blast
    moreover have "\<forall>x \<in> set (lows l). x \<le> low mi"
      using bl mi_ge order_trans by blast
    ultimately have "sorted (lows (Node mi m l r' md))"
      using sl by (simp only: sorted_lows_Node simp_thms)
    with two(6) show ?thesis by (simp only: lows_UpdateMax)
  qed
qed

subsection \<open>The augmentation bounds every \<open>high\<close> of a subtree\<close>

lemma highs_Node: "highs (Node i m l r d) = highs l @ high i # highs r"
  by (simp add: highs_def)

lemma highs_Null: "highs Null = []"
  by (simp add: highs_def)

lemma highs_eq_Nil: "(highs t = []) = (t = Null)"
  by (cases t) (simp_all add: highs_def)

lemma max_local_Max: "max_local t \<Longrightarrow> t \<noteq> Null \<Longrightarrow> max_field t = Max (set (highs t))"
proof (induction t)
  case Null
  then show ?case by simp
next
  case (Node i m l r d)
  have l: "max_field l = Max (set (highs l))" if "l \<noteq> Null"
    using Node.IH(1) Node.prems(1) that by simp
  have r: "max_field r = Max (set (highs r))" if "r \<noteq> Null"
    using Node.IH(2) Node.prems(1) that by simp
  have ne: "set (highs l) \<noteq> {}" if "l \<noteq> Null" for l :: "'a Node"
    using that by (simp add: highs_eq_Nil)
  show ?case
  proof (cases "l = Null"; cases "r = Null")
    assume "l = Null" "r = Null"
    with Node.prems(1) show ?thesis by (simp add: highs_def)
  next
    assume a: "l = Null" "r \<noteq> Null"
    with Node.prems(1) have "m = max (high i) (Max (set (highs r)))"
      by (simp add: r)
    with a ne [of r] show ?thesis by (simp add: highs_Node highs_Null)
  next
    assume a: "l \<noteq> Null" "r = Null"
    with Node.prems(1) have "m = max (high i) (Max (set (highs l)))"
      by (simp add: l)
    with a ne [of l] show ?thesis
      by (simp add: highs_Node highs_Null max.commute)
  next
    assume a: "l \<noteq> Null" "r \<noteq> Null"
    with Node.prems(1) have "m = max (max (high i) (Max (set (highs l)))) (Max (set (highs r)))"
      by (simp add: l r)
    moreover have "Max (set (highs l) \<union> insert (high i) (set (highs r)))
        = max (Max (set (highs l))) (max (high i) (Max (set (highs r))))"
      using a ne [of l] ne [of r] by (simp add: Max_Un max.left_commute)
    ultimately show ?thesis
      by (simp add: highs_Node max.assoc max.commute max.left_commute)
  qed
qed

lemma max_local_max_subtree: "max_local t \<Longrightarrow> max_subtree t"
proof (induction t)
  case Null
  show ?case by simp
next
  case (Node i m l r d)
  from Node.prems have "max_local l" "max_local r" by simp_all
  then have "max_subtree l" "max_subtree r" using Node.IH by simp_all
  moreover have "m = Max (set (highs (Node i m l r d)))"
    using max_local_Max [OF Node.prems] by simp
  ultimately show ?case by simp
qed

lemma max_field_upper:
  assumes "max_local t" "e \<in> set (entries t)"
  shows "high (fst e) \<le> max_field t"
proof -
  from assms(2) have ne: "t \<noteq> Null" by auto
  from assms(2) have "high (fst e) \<in> set (highs t)" by (simp add: highs_def)
  then have "high (fst e) \<le> Max (set (highs t))" by simp
  with max_local_Max [OF assms(1) ne] show ?thesis by simp
qed

lemma max_field_attained:
  assumes "max_local t" "t \<noteq> Null"
  shows "\<exists>e \<in> set (entries t). high (fst e) = max_field t"
proof -
  from assms(2) have "set (highs t) \<noteq> {}" by (simp add: highs_eq_Nil)
  then have "Max (set (highs t)) \<in> set (highs t)" by (intro Max_in) simp_all
  with max_local_Max [OF assms] have "max_field t \<in> set (highs t)" by simp
  then show ?thesis by (force simp: highs_def)
qed

lemma set_preorder: "set (preorder t) = set (entries t)"
  by (induction t) auto


lemma pruned_no_overlap:
  assumes "max_local l" "\<not> (l \<noteq> Null \<and> lo \<le> max_field l)"
  shows "filter (overlaps_range lo hi) (preorder l) = []"
proof (cases "l = Null")
  case True
  then show ?thesis by simp
next
  case False
  with assms(2) have lt: "max_field l < lo" by simp
  have "\<not> overlaps_range lo hi e" if "e \<in> set (preorder l)" for e
    using max_field_upper [OF assms(1), of e] that lt
    by (auto simp: overlaps_range_def set_preorder)
  then show ?thesis by (simp add: filter_empty_conv)
qed

lemma pruned_no_containing:
  assumes "max_local l" "\<not> (l \<noteq> Null \<and> v \<le> max_field l)"
  shows "filter (contains_point v) (preorder l) = []"
proof (cases "l = Null")
  case True
  then show ?thesis by simp
next
  case False
  with assms(2) have lt: "max_field l < v" by simp
  have "\<not> contains_point v e" if "e \<in> set (preorder l)" for e
    using max_field_upper [OF assms(1), of e] that lt
    by (auto simp: contains_point_def set_preorder)
  then show ?thesis by (simp add: filter_empty_conv)
qed

lemma FindOverlapping_preorder:
  "max_local t \<Longrightarrow>
     FindOverlapping t lo hi result = result @ filter (overlaps_range lo hi) (preorder t)"
proof (induction t arbitrary: result)
  case Null
  show ?case by simp
next
  case (Node i m l r d)
  from Node.prems have ml: "max_local l" and mr: "max_local r" by simp_all
  note IHl = Node.IH(1) [OF ml] and IHr = Node.IH(2) [OF mr]
  show ?case
  proof (cases "l \<noteq> Null \<and> lo \<le> max_field l")
    case True
    then show ?thesis
      by (simp add: IHl IHr Let_def overlaps_range_def)
  next
    case False
    then have c: "(l \<noteq> Null \<and> lo \<le> max_field l) = False" by simp
    show ?thesis
      using pruned_no_overlap [OF ml False, of hi]
      by (simp add: IHr Let_def c) (simp_all add: overlaps_range_def)
  qed
qed

lemma FindContaining_preorder:
  "max_local t \<Longrightarrow>
     FindContaining t v result = result @ filter (contains_point v) (preorder t)"
proof (induction t arbitrary: result)
  case Null
  show ?case by simp
next
  case (Node i m l r d)
  from Node.prems have ml: "max_local l" and mr: "max_local r" by simp_all
  note IHl = Node.IH(1) [OF ml] and IHr = Node.IH(2) [OF mr]
  show ?case
  proof (cases "l \<noteq> Null \<and> v \<le> max_field l")
    case True
    then show ?thesis
      by (simp add: IHl IHr Let_def contains_point_def)
  next
    case False
    then have c: "(l \<noteq> Null \<and> v \<le> max_field l) = False" by simp
    show ?thesis
      using pruned_no_containing [OF ml False]
      by (simp add: IHr Let_def c) (simp_all add: contains_point_def)
  qed
qed

subsection \<open>The boolean queries and the running maximum\<close>

lemma in_lows: "e \<in> set (entries t) \<Longrightarrow> low (fst e) \<in> set (lows t)"
  by (simp add: lows_def)

lemma Contains_node_iff:
  "max_local t \<Longrightarrow> sorted (lows t) \<Longrightarrow>
     Contains_node t v = (\<exists>e \<in> set (entries t). contains_point v e)"
proof (induction t)
  case Null
  show ?case by simp
next
  case (Node i m l r d)
  from Node.prems(1) have ml: "max_local l" and mr: "max_local r" by simp_all
  from Node.prems(2) have
    sl: "sorted (lows l)" and sr: "sorted (lows r)"
    and bl: "\<forall>x \<in> set (lows l). x \<le> low i" and br: "\<forall>y \<in> set (lows r). low i \<le> y"
    by (simp_all add: sorted_lows_Node)
  note IHl = Node.IH(1) [OF ml sl] and IHr = Node.IH(2) [OF mr sr]
  have split: "(\<exists>e \<in> set (entries (Node i m l r d)). contains_point v e)
      = ((\<exists>e \<in> set (entries l). contains_point v e) \<or> contains_point v (i, d)
          \<or> (\<exists>e \<in> set (entries r). contains_point v e))"
    by auto
  show ?case
  proof (cases "contains_point v (i, d)")
    case True
    then have "low i \<le> v \<and> v \<le> high i" by (simp add: contains_point_def)
    then have "Contains_node (Node i m l r d) v" by simp
    with True show ?thesis by (simp only: split simp_thms)
  next
    case here: False
    then have nh: "\<not> (low i \<le> v \<and> v \<le> high i)" by (simp add: contains_point_def)
    show ?thesis
    proof (cases "l \<noteq> Null \<and> v \<le> max_field l")
      case True
      then obtain x where x: "x \<in> set (entries l)" "v \<le> high (fst x)"
        using max_field_attained [OF ml] by auto
      have "\<exists>e \<in> set (entries l). contains_point v e"
        if e: "e \<in> set (entries r)" "contains_point v e" for e
      proof -
        have "low (fst x) \<le> low i" using bl in_lows [OF x(1)] by blast
        also have "low i \<le> low (fst e)" using br in_lows [OF e(1)] by blast
        also have "low (fst e) \<le> v" using e(2) by (simp add: contains_point_def)
        finally have "contains_point v x" using x(2) by (simp add: contains_point_def)
        with x(1) show ?thesis by blast
      qed
      then have "(\<exists>e \<in> set (entries (Node i m l r d)). contains_point v e)
          = (\<exists>e \<in> set (entries l). contains_point v e)"
        using here unfolding split by blast
      moreover have "Contains_node (Node i m l r d) v = Contains_node l v"
        using nh True by auto
      ultimately show ?thesis using IHl by simp
    next
      case False
      have "\<not> contains_point v e" if "e \<in> set (entries l)" for e
      proof -
        from that have "l \<noteq> Null" by auto
        with False have "max_field l < v" by simp
        with max_field_upper [OF ml that] show ?thesis by (auto simp: contains_point_def)
      qed
      then have "(\<exists>e \<in> set (entries (Node i m l r d)). contains_point v e)
          = (\<exists>e \<in> set (entries r). contains_point v e)"
        using here unfolding split by blast
      moreover have "Contains_node (Node i m l r d) v = Contains_node r v"
        using nh False by auto
      ultimately show ?thesis using IHr by simp
    qed
  qed
qed

lemma Overlaps_node_iff:
  "max_local t \<Longrightarrow> sorted (lows t) \<Longrightarrow>
     Overlaps_node t lo hi = (\<exists>e \<in> set (entries t). overlaps_range lo hi e)"
proof (induction t)
  case Null
  show ?case by simp
next
  case (Node i m l r d)
  from Node.prems(1) have ml: "max_local l" and mr: "max_local r" by simp_all
  from Node.prems(2) have
    sl: "sorted (lows l)" and sr: "sorted (lows r)"
    and bl: "\<forall>x \<in> set (lows l). x \<le> low i" and br: "\<forall>y \<in> set (lows r). low i \<le> y"
    by (simp_all add: sorted_lows_Node)
  note IHl = Node.IH(1) [OF ml sl] and IHr = Node.IH(2) [OF mr sr]
  have split: "(\<exists>e \<in> set (entries (Node i m l r d)). overlaps_range lo hi e)
      = ((\<exists>e \<in> set (entries l). overlaps_range lo hi e) \<or> overlaps_range lo hi (i, d)
          \<or> (\<exists>e \<in> set (entries r). overlaps_range lo hi e))"
    by auto
  show ?case
  proof (cases "overlaps_range lo hi (i, d)")
    case True
    then have "low i \<le> hi \<and> lo \<le> high i" by (simp add: overlaps_range_def)
    then have "Overlaps_node (Node i m l r d) lo hi" by simp
    with True show ?thesis by (simp only: split simp_thms)
  next
    case here: False
    then have nh: "\<not> (low i \<le> hi \<and> lo \<le> high i)" by (simp add: overlaps_range_def)
    show ?thesis
    proof (cases "l \<noteq> Null \<and> lo \<le> max_field l")
      case True
      then obtain x where x: "x \<in> set (entries l)" "lo \<le> high (fst x)"
        using max_field_attained [OF ml] by auto
      have "\<exists>e \<in> set (entries l). overlaps_range lo hi e"
        if e: "e \<in> set (entries r)" "overlaps_range lo hi e" for e
      proof -
        have "low (fst x) \<le> low i" using bl in_lows [OF x(1)] by blast
        also have "low i \<le> low (fst e)" using br in_lows [OF e(1)] by blast
        also have "low (fst e) \<le> hi" using e(2) by (simp add: overlaps_range_def)
        finally have "overlaps_range lo hi x" using x(2) by (simp add: overlaps_range_def)
        with x(1) show ?thesis by blast
      qed
      then have "(\<exists>e \<in> set (entries (Node i m l r d)). overlaps_range lo hi e)
          = (\<exists>e \<in> set (entries l). overlaps_range lo hi e)"
        using here unfolding split by blast
      moreover have "Overlaps_node (Node i m l r d) lo hi = Overlaps_node l lo hi"
        using nh True by auto
      ultimately show ?thesis using IHl by simp
    next
      case False
      have "\<not> overlaps_range lo hi e" if "e \<in> set (entries l)" for e
      proof -
        from that have "l \<noteq> Null" by auto
        with False have "max_field l < lo" by simp
        with max_field_upper [OF ml that] show ?thesis by (auto simp: overlaps_range_def)
      qed
      then have "(\<exists>e \<in> set (entries (Node i m l r d)). overlaps_range lo hi e)
          = (\<exists>e \<in> set (entries r). overlaps_range lo hi e)"
        using here unfolding split by blast
      moreover have "Overlaps_node (Node i m l r d) lo hi = Overlaps_node r lo hi"
        using nh False by auto
      ultimately show ?thesis using IHr by simp
    qed
  qed
qed

lemma MaxHighOverlapping_node_fold:
  "max_local t \<Longrightarrow>
     MaxHighOverlapping_node t lo hi maxValue =
       fold (\<lambda>e a. max a (high (fst e))) (filter (overlaps_range lo hi) (preorder t)) maxValue"
proof (induction t arbitrary: maxValue)
  case Null
  show ?case by simp
next
  case (Node i m l r d)
  from Node.prems have ml: "max_local l" and mr: "max_local r" by simp_all
  note IHl = Node.IH(1) [OF ml] and IHr = Node.IH(2) [OF mr]
  show ?case
  proof (cases "l \<noteq> Null \<and> lo \<le> max_field l")
    case True
    then show ?thesis
      by (simp add: IHl IHr Let_def overlaps_range_def)
  next
    case False
    then have c: "(l \<noteq> Null \<and> lo \<le> max_field l) = False" by simp
    show ?thesis
      using pruned_no_overlap [OF ml False, of hi]
      by (simp add: IHr Let_def c) (auto simp: overlaps_range_def)
  qed
qed

lemma fold_max_Max:
  "fold (\<lambda>e a. max a (f e)) xs (a::'b::linorder) = Max (insert a (f ` set xs))"
proof (induction xs arbitrary: a)
  case Nil
  show ?case by simp
next
  case (Cons x xs)
  have "Max (insert (max a (f x)) (f ` set xs)) = Max (insert a (insert (f x) (f ` set xs)))"
    by (cases "set xs = {}") (simp_all add: max.assoc)
  with Cons show ?case by simp
qed

subsection \<open>Every sequence of public calls keeps the invariants\<close>

lemma well_formed_new: "well_formed IntervalTree_new"
  by (simp add: well_formed_def IntervalTree_new_def lows_def)

lemma Insert_Returned:
  "Insert t i dat = Returned t' \<Longrightarrow>
     \<not> high i < low i \<and> Insert_node (Root t) i dat = Some (Root t')
       \<and> size_field t' = size_field t + 1"
  by (auto simp: Insert_def split: if_splits option.splits)

lemma Insert_Thrown: "Insert t i dat = Thrown_invalid_argument t' \<Longrightarrow> t' = t \<and> high i < low i"
  by (auto simp: Insert_def split: if_splits option.splits)

lemma Remove_Returned:
  "Remove t i = Returned t' \<Longrightarrow>
     t' = t \<or> Remove_node (Root t) i = Some (Root t')"
  by (auto simp: Remove_def split: if_splits option.splits)

lemma Remove_not_Thrown: "Remove t i \<noteq> Thrown_invalid_argument t'"
  by (auto simp: Remove_def split: if_splits option.splits)

lemma Insert_well_formed:
  assumes "well_formed t" "Insert t i dat = Returned t' \<or> Insert t i dat = Thrown_invalid_argument t'"
  shows "well_formed t'"
  using assms(2)
proof
  assume "Insert t i dat = Returned t'"
  then have n: "Insert_node (Root t) i dat = Some (Root t')" by (simp add: Insert_Returned)
  from assms(1) show ?thesis
    using Insert_node_max_local [OF n] Insert_node_sorted [OF n]
    by (simp add: well_formed_def)
next
  assume th: "Insert t i dat = Thrown_invalid_argument t'"
  from Insert_Thrown [OF th] assms(1) show ?thesis by simp
qed

lemma Remove_well_formed:
  assumes "well_formed t" "Remove t i = Returned t'"
  shows "well_formed t'"
  using Remove_Returned [OF assms(2)]
proof
  assume "t' = t"
  with assms(1) show ?thesis by simp
next
  assume n: "Remove_node (Root t) i = Some (Root t')"
  from assms(1) show ?thesis
    using Remove_node_max_local [OF n] Remove_node_sorted [OF n]
    by (simp add: well_formed_def)
qed

lemma Update_well_formed:
  assumes "well_formed t"
    "Update t old new dat = Returned t' \<or> Update t old new dat = Thrown_invalid_argument t'"
  shows "well_formed t'"
proof (cases "Remove t old")
  case (Returned t1)
  with assms(1) have "well_formed t1" by (simp add: Remove_well_formed)
  moreover from assms(2) Returned have
    "Insert t1 new dat = Returned t' \<or> Insert t1 new dat = Thrown_invalid_argument t'"
    by (simp add: Update_def)
  ultimately show ?thesis by (rule Insert_well_formed)
next
  case (Thrown_invalid_argument t1)
  then show ?thesis by (simp add: Remove_not_Thrown)
next
  case Null_dereference
  with assms(2) show ?thesis by (simp add: Update_def)
qed

lemma call_well_formed:
  assumes "well_formed t" "call t c = Returned t' \<or> call t c = Thrown_invalid_argument t'"
  shows "well_formed t'"
proof (cases c)
  case (Call_Insert i dat)
  with assms show ?thesis using Insert_well_formed [of t i dat t'] by simp
next
  case (Call_Insert_low_high lo hi dat)
  with assms show ?thesis
    using Insert_well_formed [of t "\<lparr>low = lo, high = hi\<rparr>" dat t']
    by (simp add: Insert_low_high_def)
next
  case (Call_Remove i)
  with assms show ?thesis
    using Remove_well_formed [of t i t'] by (simp add: Remove_not_Thrown)
next
  case (Call_Update old new dat)
  with assms show ?thesis using Update_well_formed [of t old new dat t'] by simp
next
  case Call_Clear
  with assms(2) show ?thesis by (auto simp: Clear_def well_formed_def lows_def)
qed

lemma calls_well_formed: "calls t cs = Some t' \<Longrightarrow> well_formed t \<Longrightarrow> well_formed t'"
proof (induction cs arbitrary: t)
  case Nil
  then show ?case by simp
next
  case (Cons c cs)
  show ?case
  proof (cases "call t c")
    case (Returned t1)
    with Cons.prems(2) have "well_formed t1" using call_well_formed by blast
    moreover from Cons.prems(1) Returned have "calls t1 cs = Some t'" by simp
    ultimately show ?thesis using Cons.IH by blast
  next
    case (Thrown_invalid_argument t1)
    with Cons.prems(2) have "well_formed t1" using call_well_formed by blast
    moreover from Cons.prems(1) Thrown_invalid_argument have "calls t1 cs = Some t'" by simp
    ultimately show ?thesis using Cons.IH by blast
  next
    case Null_dereference
    with Cons.prems(1) show ?thesis by simp
  qed
qed

lemma calls_new_well_formed: "calls IntervalTree_new cs = Some t \<Longrightarrow> well_formed t"
  using calls_well_formed well_formed_new by blast

lemma ToString_node_entries:
  "ToString_node put t oss = oss @ concat (map (render_interval put) (map fst (entries t)))"
  by (induction t arbitrary: oss) (simp_all add: Let_def render_interval_def)

lemmas eval_defs = IntervalTree_new_def Node_new_def Interval_new_def Insert_def
  Insert_low_high_def Remove_def Update_def Clear_def Contains_def Overlaps_def Size_def
  Containing_def Overlapping_def MaxHighOverlapping_def FindByMinMax_def ToString_def Let_def




subsection \<open>Insertions of pairwise distinct \<open>low\<close> keys keep the balance\<close>

text \<open>
  When the inserted \<open>low\<close> is not yet in the tree, the key comparisons of the
  rebalancing dispatch agree with the side the insertion went to, every rotation finds
  the child it reads, and the AVL balance is kept.
\<close>

lemma UpdateMax_Node: "\<exists>m'. UpdateMax (Node i m l r d) = Node i m' l r d"
  by (simp add: Let_def)

lemma Height_UpdateMax: "Height (UpdateMax t) = Height t"
  by (cases t) (simp_all add: Let_def)

lemma balanced_UpdateMax: "balanced (UpdateMax t) = balanced t"
  by (cases t) (simp_all add: Let_def)

lemma Height_nonneg: "0 \<le> Height t"
  by (induction t) simp_all

lemma Height_pos: "t \<noteq> Null \<Longrightarrow> 1 \<le> Height t"
proof (cases t)
  case Null
  then show "t \<noteq> Null \<Longrightarrow> 1 \<le> Height t" by simp
next
  case (Node i m l r d)
  then show "1 \<le> Height t" using Height_nonneg [of l] by (simp add: max.coboundedI1)
qed

lemma RotateRight_Node:
  "\<exists>m1 m2. RotateRight (Node i m (Node li lm ll lr ld) r d)
     = Some (Node li m1 ll (Node i m2 lr r d) ld)"
proof -
  obtain m2 where a: "UpdateMax (Node i m lr r d) = Node i m2 lr r d"
    using UpdateMax_Node by blast
  obtain m1 where "UpdateMax (Node li lm ll (Node i m2 lr r d) ld) = Node li m1 ll (Node i m2 lr r d) ld"
    using UpdateMax_Node by blast
  with a show ?thesis by (simp del: UpdateMax.simps)
qed

lemma RotateLeft_Node:
  "\<exists>m1 m2. RotateLeft (Node i m l (Node ri rm rl rr rd) d)
     = Some (Node ri m1 (Node i m2 l rl d) rr rd)"
proof -
  obtain m2 where a: "UpdateMax (Node i m l rl d) = Node i m2 l rl d"
    using UpdateMax_Node by blast
  obtain m1 where "UpdateMax (Node ri rm (Node i m2 l rl d) rr rd) = Node ri m1 (Node i m2 l rl d) rr rd"
    using UpdateMax_Node by blast
  with a show ?thesis by (simp del: UpdateMax.simps)
qed

text \<open>Rebalancing after an insertion into the left subtree.\<close>

lemma rebalance_left:
  assumes bl: "balanced l'" and br: "balanced r"
    and h: "Height l' = Height l \<or> (Height l' = Height l + 1 \<and> taller_side i l l')"
    and b: "\<bar>Height l - Height r\<bar> \<le> 1"
    and lt: "low i < low ni"
  shows "\<exists>t'. Insert_rebalance (Node ni m l' r d) i = Some t' \<and> balanced t'
    \<and> (Height t' = Height (Node ni m0 l r d)
        \<or> (Height t' = Height (Node ni m0 l r d) + 1 \<and> taller_side i (Node ni m0 l r d) t'))"
proof (cases "Height l' - Height r > 1")
  case False
  then have "Insert_rebalance (Node ni m l' r d) i = Some (Node ni m l' r d)"
    using h b by (auto simp: Let_def)
  moreover have "balanced (Node ni m l' r d)"
    using False h b bl br by auto
  moreover have "Height (Node ni m l' r d) = Height (Node ni m0 l r d)
        \<or> (Height (Node ni m l' r d) = Height (Node ni m0 l r d) + 1
            \<and> taller_side i (Node ni m0 l r d) (Node ni m l' r d))"
    using False h b lt by auto
  ultimately show ?thesis by blast
next
  case True
  with h b have hl: "Height l' = Height r + 2" "Height l = Height r + 1"
    and ts: "taller_side i l l'" by auto
  from hl(2) Height_nonneg [of r] have "l \<noteq> Null" by auto
  then obtain li lm ll lr ld where l: "l = Node li lm ll lr ld" by (cases l) auto
  with ts obtain lm' ll' lr' ld' where l': "l' = Node li lm' ll' lr' ld'"
    and side: "if low i < low li then Height lr' < Height ll' else Height ll' < Height lr'"
    by (cases l') auto
  from bl l' have bll: "balanced ll'" and blr: "balanced lr'"
    and bal: "\<bar>Height ll' - Height lr'\<bar> \<le> 1" by simp_all
  from hl(1) l' have mx: "max (Height ll') (Height lr') = Height r + 1" by simp
  show ?thesis
  proof (cases "low i < low li")
    case single: True
    with side mx bal have hs: "Height ll' = Height r + 1" "Height lr' = Height r" by auto
    obtain m1 m2 where rot: "RotateRight (Node ni m l' r d)
        = Some (Node li m1 ll' (Node ni m2 lr' r d) ld')"
      unfolding l' using RotateRight_Node by blast
    have "Insert_rebalance (Node ni m l' r d) i = Some (Node li m1 ll' (Node ni m2 lr' r d) ld')"
      using True single rot l' by (simp add: Let_def del: RotateRight.simps)
    moreover have "balanced (Node li m1 ll' (Node ni m2 lr' r d) ld')"
      using hs bll blr br by simp
    moreover have "Height (Node li m1 ll' (Node ni m2 lr' r d) ld') = Height (Node ni m0 l r d)"
      using hs hl by simp
    ultimately show ?thesis by blast
  next
    case double: False
    with side mx bal have hs: "Height lr' = Height r + 1" "Height ll' = Height r" by auto
    from hs(1) Height_nonneg [of r] have "lr' \<noteq> Null" by auto
    then obtain ci cm cl cr cd where c: "lr' = Node ci cm cl cr cd" by (cases lr') auto
    from blr c have bcl: "balanced cl" and bcr: "balanced cr"
      and cbal: "\<bar>Height cl - Height cr\<bar> \<le> 1" by simp_all
    from hs(1) c have cmx: "max (Height cl) (Height cr) = Height r" by simp
    obtain m1 m2 where rot1: "RotateLeft l' = Some (Node ci m1 (Node li m2 ll' cl ld') cr cd)"
      unfolding l' c using RotateLeft_Node by blast
    obtain m3 m4 where rot2: "RotateRight (Node ni m (Node ci m1 (Node li m2 ll' cl ld') cr cd) r d)
        = Some (Node ci m3 (Node li m2 ll' cl ld') (Node ni m4 cr r d) cd)"
      using RotateRight_Node by blast
    let ?t' = "Node ci m3 (Node li m2 ll' cl ld') (Node ni m4 cr r d) cd"
    have "Insert_rebalance (Node ni m l' r d) i = Some ?t'"
      using True double rot1 rot2 l'
      by (simp add: Let_def del: RotateRight.simps RotateLeft.simps)
    moreover have "balanced ?t'"
      using hs bll bcl bcr br cbal cmx by auto
    moreover have "Height ?t' = Height (Node ni m0 l r d)"
      using hs hl cmx cbal by auto
    ultimately show ?thesis by blast
  qed
qed


text \<open>Rebalancing after an insertion into the right subtree of a key that differs from the
  right child's.\<close>

lemma rebalance_right:
  assumes bl: "balanced l" and br: "balanced r'"
    and h: "Height r' = Height r \<or> (Height r' = Height r + 1 \<and> taller_side i r r')"
    and b: "\<bar>Height l - Height r\<bar> \<le> 1"
    and ge: "\<not> low i < low ni"
    and ne: "low i \<notin> set (lows r)"
  shows "\<exists>t'. Insert_rebalance (Node ni m l r' d) i = Some t' \<and> balanced t'
    \<and> (Height t' = Height (Node ni m0 l r d)
        \<or> (Height t' = Height (Node ni m0 l r d) + 1 \<and> taller_side i (Node ni m0 l r d) t'))"
proof (cases "Height l - Height r' < - 1")
  case False
  then have "Insert_rebalance (Node ni m l r' d) i = Some (Node ni m l r' d)"
    using h b by (auto simp: Let_def)
  moreover have "balanced (Node ni m l r' d)"
    using False h b bl br by auto
  moreover have "Height (Node ni m l r' d) = Height (Node ni m0 l r d)
        \<or> (Height (Node ni m l r' d) = Height (Node ni m0 l r d) + 1
            \<and> taller_side i (Node ni m0 l r d) (Node ni m l r' d))"
    using False h b ge by auto
  ultimately show ?thesis by blast
next
  case True
  with h b have hr: "Height r' = Height l + 2" "Height r = Height l + 1"
    and ts: "taller_side i r r'" by auto
  from hr(2) Height_nonneg [of l] have "r \<noteq> Null" by auto
  then obtain ri rm rl rr rd where r: "r = Node ri rm rl rr rd" by (cases r) auto
  with ts obtain rm' rl' rr' rd' where r': "r' = Node ri rm' rl' rr' rd'"
    and side: "if low i < low ri then Height rr' < Height rl' else Height rl' < Height rr'"
    by (cases r') auto
  from ne r have neq: "low i \<noteq> low ri" by (auto simp: lows_def)
  from br r' have brl: "balanced rl'" and brr: "balanced rr'"
    and bal: "\<bar>Height rl' - Height rr'\<bar> \<le> 1" by simp_all
  from hr(1) r' have mx: "max (Height rl') (Height rr') = Height l + 1" by simp
  have nb: "\<not> Height l - Height r' > 1" using True by simp
  show ?thesis
  proof (cases "low ri < low i")
    case single: True
    then have "\<not> low i < low ri" by simp
    with side mx bal have hs: "Height rr' = Height l + 1" "Height rl' = Height l" by auto
    obtain m1 m2 where rot: "RotateLeft (Node ni m l r' d)
        = Some (Node ri m1 (Node ni m2 l rl' d) rr' rd')"
      unfolding r' using RotateLeft_Node by blast
    have "Insert_rebalance (Node ni m l r' d) i = Some (Node ri m1 (Node ni m2 l rl' d) rr' rd')"
      using True nb single rot r' by (simp add: Let_def del: RotateLeft.simps)
    moreover have "balanced (Node ri m1 (Node ni m2 l rl' d) rr' rd')"
      using hs brl brr bl by simp
    moreover have "Height (Node ri m1 (Node ni m2 l rl' d) rr' rd') = Height (Node ni m0 l r d)"
      using hs hr by simp
    ultimately show ?thesis by blast
  next
    case double: False
    with neq have "low i < low ri" by simp
    with side mx bal have hs: "Height rl' = Height l + 1" "Height rr' = Height l" by auto
    from hs(1) Height_nonneg [of l] have "rl' \<noteq> Null" by auto
    then obtain ci cm cl cr cd where c: "rl' = Node ci cm cl cr cd" by (cases rl') auto
    from brl c have bcl: "balanced cl" and bcr: "balanced cr"
      and cbal: "\<bar>Height cl - Height cr\<bar> \<le> 1" by simp_all
    from hs(1) c have cmx: "max (Height cl) (Height cr) = Height l" by simp
    obtain m1 m2 where rot1: "RotateRight r' = Some (Node ci m1 cl (Node ri m2 cr rr' rd') cd)"
      unfolding r' c using RotateRight_Node by blast
    obtain m3 m4 where rot2: "RotateLeft (Node ni m l (Node ci m1 cl (Node ri m2 cr rr' rd') cd) d)
        = Some (Node ci m3 (Node ni m4 l cl d) (Node ri m2 cr rr' rd') cd)"
      using RotateLeft_Node by blast
    let ?t' = "Node ci m3 (Node ni m4 l cl d) (Node ri m2 cr rr' rd') cd"
    have "Insert_rebalance (Node ni m l r' d) i = Some ?t'"
      using True nb double rot1 rot2 r'
      by (simp add: Let_def del: RotateRight.simps RotateLeft.simps)
    moreover have "balanced ?t'"
      using hs brr bcl bcr bl cbal cmx by auto
    moreover have "Height ?t' = Height (Node ni m0 l r d)"
      using hs hr cmx cbal by auto
    ultimately show ?thesis by blast
  qed
qed

lemma Insert_node_balanced:
  assumes "balanced t" "low i \<notin> set (lows t)"
  shows "\<exists>t'. Insert_node t i dat = Some t' \<and> balanced t'
    \<and> (Height t' = Height t \<or> (Height t' = Height t + 1 \<and> taller_side i t t'))"
  using assms
proof (induction t)
  case Null
  show ?case by (simp add: Node_new_def)
next
  case (Node ni m l r d)
  from Node.prems(1) have bl: "balanced l" and br: "balanced r"
    and b: "\<bar>Height l - Height r\<bar> \<le> 1" by simp_all
  from Node.prems(2) have nl: "low i \<notin> set (lows l)" and nr: "low i \<notin> set (lows r)"
    by (auto simp: lows_def)
  show ?case
  proof (cases "low i < low ni")
    case True
    from Node.IH(1) [OF bl nl] obtain l' where
      l': "Insert_node l i dat = Some l'" "balanced l'"
        "Height l' = Height l \<or> (Height l' = Height l + 1 \<and> taller_side i l l')"
      by blast
    obtain m' where um: "UpdateMax (Node ni m l' r d) = Node ni m' l' r d"
      using UpdateMax_Node by blast
    from rebalance_left [OF l'(2) br l'(3) b True, of m' d m]
    show ?thesis using True l'(1) um
      by (simp del: UpdateMax.simps Insert_rebalance.simps Height.simps taller_side.simps)
  next
    case False
    from Node.IH(2) [OF br nr] obtain r' where
      r': "Insert_node r i dat = Some r'" "balanced r'"
        "Height r' = Height r \<or> (Height r' = Height r + 1 \<and> taller_side i r r')"
      by blast
    obtain m' where um: "UpdateMax (Node ni m l r' d) = Node ni m' l r' d"
      using UpdateMax_Node by blast
    from rebalance_right [OF bl r'(2) r'(3) b False nr, of m' d m]
    show ?thesis using False r'(1) um
      by (simp del: UpdateMax.simps Insert_rebalance.simps Height.simps taller_side.simps)
  qed
qed


lemma Insert_distinct_lows_balanced:
  assumes "balanced (Root t)"
    and "distinct (map (\<lambda>p. low (fst p)) ps)"
    and "\<forall>p \<in> set ps. low (fst p) \<le> high (fst p) \<and> low (fst p) \<notin> set (lows (Root t))"
  shows "\<exists>t'. calls t (map (\<lambda>p. Call_Insert (fst p) (snd p)) ps) = Some t'
    \<and> balanced (Root t')"
  using assms
proof (induction ps arbitrary: t)
  case Nil
  then show ?case by simp
next
  case (Cons p ps)
  from Cons.prems(3) have valid: "\<not> high (fst p) < low (fst p)"
    and new: "low (fst p) \<notin> set (lows (Root t))" by auto
  from Insert_node_balanced [OF Cons.prems(1) new, of "snd p"] obtain n where
    n: "Insert_node (Root t) (fst p) (snd p) = Some n" "balanced n" by blast
  let ?t1 = "t\<lparr>Root := n, size_field := size_field t + 1\<rparr>"
  have ins: "Insert t (fst p) (snd p) = Returned ?t1"
    using valid n(1) by (simp add: Insert_def)
  have "set (lows (Root ?t1)) = insert (low (fst p)) (set (lows (Root t)))"
    using Insert_node_set_lows [OF n(1)] by simp
  moreover have "low (fst q) \<noteq> low (fst p)" if "q \<in> set ps" for q
    using Cons.prems(2) that by (auto simp: image_iff)
  ultimately
  have "\<forall>q \<in> set ps. low (fst q) \<le> high (fst q) \<and> low (fst q) \<notin> set (lows (Root ?t1))"
    using Cons.prems(3) by simp
  moreover have "balanced (Root ?t1)" using n(2) by simp
  moreover have "distinct (map (\<lambda>p. low (fst p)) ps)" using Cons.prems(2) by simp
  ultimately obtain t' where
    "calls ?t1 (map (\<lambda>p. Call_Insert (fst p) (snd p)) ps) = Some t'" "balanced (Root t')"
    using Cons.IH [of ?t1] by blast
  with ins show ?case by simp
qed


subsection \<open>\<open>MaxHighOverlapping\<close> when the start value is a lower bound\<close>

text \<open>
  When nothing overlaps the range the result is the start value; when the start value is
  at most the \<open>high\<close> of every overlapping stored interval (as the least value of an
  integer type is), the result is the greatest overlapping \<open>high\<close>.
\<close>

lemma MaxHighOverlapping_least_start:
  assumes "calls IntervalTree_new cs = Some t"
  shows "(overlapping_entries t lo hi = [] \<longrightarrow> MaxHighOverlapping tmin t lo hi = tmin)
    \<and> (overlapping_entries t lo hi \<noteq> []
          \<and> (\<forall>e \<in> set (overlapping_entries t lo hi). tmin \<le> high (fst e))
        \<longrightarrow> MaxHighOverlapping tmin t lo hi
              = Max (set (map (\<lambda>e. high (fst e)) (overlapping_entries t lo hi))))"
proof -
  let ?f = "\<lambda>e :: 'a Interval \<times> 'a option. high (fst e)"
  let ?S = "set (overlapping_entries t lo hi)"
  from assms have "max_local (Root t)"
    using calls_new_well_formed by (auto simp: well_formed_def)
  then have "MaxHighOverlapping tmin t lo hi
      = Max (insert tmin (?f ` set (filter (overlaps_range lo hi) (preorder (Root t)))))"
    by (simp only: MaxHighOverlapping_def MaxHighOverlapping_node_fold fold_max_Max)
  then have eq: "MaxHighOverlapping tmin t lo hi = Max (insert tmin (?f ` ?S))"
    by (simp add: overlapping_entries_def set_preorder)
  have empty: "MaxHighOverlapping tmin t lo hi = tmin" if "overlapping_entries t lo hi = []"
    using eq that by simp
  have some: "MaxHighOverlapping tmin t lo hi = Max (set (map ?f (overlapping_entries t lo hi)))"
    if ne: "overlapping_entries t lo hi \<noteq> []" and lb: "\<forall>e \<in> ?S. tmin \<le> ?f e"
  proof -
    from ne have fin: "finite (?f ` ?S)" and ne': "?f ` ?S \<noteq> {}" by simp_all
    from ne obtain e where e: "e \<in> ?S" by (cases "overlapping_entries t lo hi") auto
    then have "tmin \<le> ?f e" using lb by blast
    also have "?f e \<le> Max (?f ` ?S)" using e fin by (intro Max_ge) simp_all
    finally have "max tmin (Max (?f ` ?S)) = Max (?f ` ?S)" by (simp add: max.absorb2)
    then have "Max (insert tmin (?f ` ?S)) = Max (?f ` ?S)"
      using fin ne' by simp
    with eq show ?thesis by simp
  qed
  from empty some show ?thesis by blast
qed


section \<open>The claims\<close>

text \<open>
  C1 (size consistency). The claim: after every sequence of \<open>Insert\<close> and \<open>Remove\<close>
  calls on the empty tree, \<open>Size()\<close> is the number of nodes reachable from the root.
  The public \<open>Remove\<close> decrements \<open>size\<close> whenever \<open>Contains(i.low)\<close> holds, also when
  the private \<open>Remove\<close> finds no node whose \<open>low\<close> is \<open>i.low\<close> and removes nothing.
  After \<open>Insert(1, 10)\<close> and \<open>Remove(Interval(5, 7))\<close> the node \<open>[1, 10]\<close> is still
  reachable and \<open>Size()\<close> is \<open>0\<close>.
\<close>

theorem Remove_decrements_size_without_removing:
  "map_option (\<lambda>t. (Size t, count_nodes (Root t)))
     (calls IntervalTree_new
        [Call_Insert_low_high (1::int) 10 None, Call_Remove (Interval_new 5 7)])
   = Some (0, 1)"
  by (simp add: eval_defs)

text \<open>
  C2 (augmentation). After every sequence of public calls (\<open>Insert\<close>, \<open>Remove\<close>,
  \<open>Update\<close>, \<open>Clear\<close>) on the empty tree, every node's \<open>max\<close> is the maximum of its own
  \<open>high\<close> and the \<open>max\<close> of each child that is present, and it is the greatest \<open>high\<close>
  among the node and its descendants.
\<close>

theorem augmentation_after_calls:
  "calls IntervalTree_new cs = Some t \<Longrightarrow> max_local (Root t) \<and> max_subtree (Root t)"
proof -
  assume "calls IntervalTree_new cs = Some t"
  then have "max_local (Root t)"
    using calls_new_well_formed by (auto simp: well_formed_def)
  then show ?thesis by (simp add: max_local_max_subtree)
qed

theorem augmentation_after_calls_witness:
  "calls IntervalTree_new
     [Call_Insert_low_high (1::int) 3 None, Call_Insert_low_high 5 8 (Some 7),
      Call_Insert_low_high 2 6 None, Call_Insert_low_high 15 20 None,
      Call_Remove (Interval_new 5 8), Call_Update (Interval_new 2 6) (Interval_new 4 30) None,
      Call_Insert_low_high 9 2 None]
    = Some \<lparr>Root = Node (Interval_new 4 30) 30 (Node (Interval_new 1 3) 3 Null Null None)
               (Node (Interval_new 15 20) 20 Null Null None) None, size_field = 3\<rparr>
   \<and> max_local (Node (Interval_new (4::int) 30) 30 (Node (Interval_new 1 3) 3 Null Null None)
               (Node (Interval_new 15 20) 20 Null Null None) None)
   \<and> max_subtree (Node (Interval_new (4::int) 30) 30 (Node (Interval_new 1 3) 3 Null Null None)
               (Node (Interval_new 15 20) 20 Null Null None) None)"
proof -
  have run: "calls IntervalTree_new
     [Call_Insert_low_high (1::int) 3 None, Call_Insert_low_high 5 8 (Some 7),
      Call_Insert_low_high 2 6 None, Call_Insert_low_high 15 20 None,
      Call_Remove (Interval_new 5 8), Call_Update (Interval_new 2 6) (Interval_new 4 30) None,
      Call_Insert_low_high 9 2 None]
    = Some \<lparr>Root = Node (Interval_new 4 30) 30 (Node (Interval_new 1 3) 3 Null Null None)
               (Node (Interval_new 15 20) 20 Null Null None) None, size_field = 3\<rparr>"
    by (simp add: eval_defs)
  from augmentation_after_calls [OF run] run show ?thesis by simp
qed

text \<open>
  C3 (\<open>FindByMinMax\<close>). The claim: \<open>FindByMinMax(min, max)\<close> returns exactly the stored
  pairs with \<open>interval.high \<ge> min\<close> and \<open>interval.low \<le> max\<close>. The private function does
  not pass \<open>result\<close> to its calls on the children, so only the root is ever tested. After
  \<open>Insert(1, 3)\<close> and \<open>Insert(5, 8)\<close>, \<open>FindByMinMax(0, 10)\<close> holds \<open>[1, 3]\<close> alone
  although both stored intervals satisfy the predicate.
\<close>

theorem FindByMinMax_ignores_children:
  "map_option
     (\<lambda>t. (FindByMinMax t 0 10,
           filter (\<lambda>e. high (fst e) \<ge> 0 \<and> low (fst e) \<le> 10) (entries (Root t))))
     (calls IntervalTree_new
        [Call_Insert_low_high (1::int) 3 None, Call_Insert_low_high 5 8 None])
   = Some ([(Interval_new 1 3, None)], [(Interval_new 1 3, None), (Interval_new 5 8, None)])"
  by (simp add: eval_defs)

text \<open>
  C4 (boolean queries). For every tree reached by public calls, \<open>Contains(value)\<close> is true
  exactly when \<open>Containing(value)\<close> is not empty, which is exactly when some stored
  interval has \<open>low \<le> value \<le> high\<close>; and \<open>Overlaps(lo, hi)\<close> is true exactly when
  \<open>Overlapping(lo, hi)\<close> is not empty, which is exactly when some stored interval overlaps
  the range. Descending into one side only loses nothing: when the left subtree's \<open>max\<close>
  reaches the query's lower bound and the right subtree holds a match, the left subtree
  holds one too, because every \<open>low\<close> on the left is at most every \<open>low\<close> on the right.
\<close>

theorem Contains_Overlaps_agree:
  assumes "calls IntervalTree_new cs = Some t"
  shows "(Contains t v \<longleftrightarrow> Containing t v \<noteq> [])
    \<and> (Contains t v \<longleftrightarrow> (\<exists>e \<in> set (entries (Root t)). contains_point v e))
    \<and> (Overlaps t lo hi \<longleftrightarrow> Overlapping t lo hi \<noteq> [])
    \<and> (Overlaps t lo hi \<longleftrightarrow> (\<exists>e \<in> set (entries (Root t)). overlaps_range lo hi e))"
proof -
  from assms have wf: "max_local (Root t)" "sorted (lows (Root t))"
    using calls_new_well_formed by (auto simp: well_formed_def)
  have c: "Contains t v \<longleftrightarrow> (\<exists>e \<in> set (entries (Root t)). contains_point v e)"
    using wf by (simp add: Contains_def Contains_node_iff)
  have "Containing t v = filter (contains_point v) (preorder (Root t))"
    using wf(1) by (simp add: Containing_def FindContaining_preorder)
  then have "Containing t v \<noteq> [] \<longleftrightarrow> (\<exists>e \<in> set (entries (Root t)). contains_point v e)"
    by (simp add: filter_empty_conv set_preorder)
  with c have c': "Contains t v \<longleftrightarrow> Containing t v \<noteq> []" by simp
  have o: "Overlaps t lo hi \<longleftrightarrow> (\<exists>e \<in> set (entries (Root t)). overlaps_range lo hi e)"
    using wf by (simp add: Overlaps_def Overlaps_node_iff)
  have "Overlapping t lo hi = filter (overlaps_range lo hi) (preorder (Root t))"
    using wf(1) by (simp add: Overlapping_def FindOverlapping_preorder)
  then have "Overlapping t lo hi \<noteq> [] \<longleftrightarrow> (\<exists>e \<in> set (entries (Root t)). overlaps_range lo hi e)"
    by (simp add: filter_empty_conv set_preorder)
  with o have o': "Overlaps t lo hi \<longleftrightarrow> Overlapping t lo hi \<noteq> []" by simp
  from c c' o o' show ?thesis by blast
qed

theorem Contains_Overlaps_agree_witness:
  "calls IntervalTree_new
      [Call_Insert_low_high (1::int) 3 None, Call_Insert_low_high 5 8 (Some 7),
       Call_Insert_low_high 2 6 None, Call_Insert_low_high 15 20 None]
     = Some \<lparr>Root = Node (Interval_new 2 6) 20 (Node (Interval_new 1 3) 3 Null Null None)
              (Node (Interval_new 5 8) 20 Null (Node (Interval_new 15 20) 20 Null Null None)
                (Some 7)) None, size_field = 4\<rparr>
   \<and> Contains \<lparr>Root = Node (Interval_new (2::int) 6) 20
              (Node (Interval_new 1 3) 3 Null Null None)
              (Node (Interval_new 5 8) 20 Null (Node (Interval_new 15 20) 20 Null Null None)
                (Some 7)) None, size_field = 4\<rparr> 16
   \<and> Containing \<lparr>Root = Node (Interval_new (2::int) 6) 20
              (Node (Interval_new 1 3) 3 Null Null None)
              (Node (Interval_new 5 8) 20 Null (Node (Interval_new 15 20) 20 Null Null None)
                (Some 7)) None, size_field = 4\<rparr> 16 \<noteq> []
   \<and> \<not> Overlaps \<lparr>Root = Node (Interval_new (2::int) 6) 20
              (Node (Interval_new 1 3) 3 Null Null None)
              (Node (Interval_new 5 8) 20 Null (Node (Interval_new 15 20) 20 Null Null None)
                (Some 7)) None, size_field = 4\<rparr> 9 14
   \<and> Overlapping \<lparr>Root = Node (Interval_new (2::int) 6) 20
              (Node (Interval_new 1 3) 3 Null Null None)
              (Node (Interval_new 5 8) 20 Null (Node (Interval_new 15 20) 20 Null Null None)
                (Some 7)) None, size_field = 4\<rparr> 9 14 = []"
proof -
  let ?t = "\<lparr>Root = Node (Interval_new (2::int) 6) 20
              (Node (Interval_new 1 3) 3 Null Null None)
              (Node (Interval_new 5 8) 20 Null (Node (Interval_new 15 20) 20 Null Null None)
                (Some 7)) None, size_field = 4\<rparr>"
  have run: "calls IntervalTree_new
      [Call_Insert_low_high (1::int) 3 None, Call_Insert_low_high 5 8 (Some 7),
       Call_Insert_low_high 2 6 None, Call_Insert_low_high 15 20 None] = Some ?t"
    by (simp add: eval_defs)
  have c: "Contains ?t 16" by (simp add: eval_defs)
  have o: "\<not> Overlaps ?t 9 14" by (simp add: eval_defs)
  from Contains_Overlaps_agree [OF run, of 16 9 14] c o
  have "Containing ?t 16 \<noteq> [] \<and> Overlapping ?t 9 14 = []" by blast
  with run c o show ?thesis by blast
qed

text \<open>
  C5 (balance). The claim: after every sequence of successful \<open>Insert\<close> calls on the
  empty tree, equal \<open>low\<close> keys included, every node has
  \<open>|height(left) - height(right)| \<le> 1\<close>. In the right-heavy case the private \<open>Insert\<close>
  tests \<open>i.low > node->right->interval.low\<close>, so a key equal to the right child's, which
  went to the right of that child, is treated as if it had gone to its left. After the
  inserts \<open>10, 5, 20, 15, 25, 20\<close> (each as \<open>[k, k]\<close>) the node \<open>[20, 20]\<close> has an empty
  left subtree and a right subtree of height \<open>2\<close>. (Insertions of pairwise distinct
  \<open>low\<close> keys do keep the balance: \<open>Insert_distinct_lows_balanced\<close>.)
\<close>

theorem Insert_equal_low_unbalanced:
  "map_option (\<lambda>t. (balanced (Root t), Root t))
     (calls IntervalTree_new
        [Call_Insert_low_high (10::int) 10 None, Call_Insert_low_high 5 5 None,
         Call_Insert_low_high 20 20 None, Call_Insert_low_high 15 15 None,
         Call_Insert_low_high 25 25 None, Call_Insert_low_high 20 20 None])
   = Some (False,
       Node (Interval_new 15 15) 25
         (Node (Interval_new 10 10) 10 (Node (Interval_new 5 5) 5 Null Null None) Null None)
         (Node (Interval_new 20 20) 25 Null
           (Node (Interval_new 25 25) 25 (Node (Interval_new 20 20) 20 Null Null None) Null None)
           None)
         None)"
  by (simp add: eval_defs)

text \<open>
  C6 (rotations are defined). The claim: for every sequence of \<open>Insert\<close> calls with valid
  intervals, equal \<open>low\<close> values included, \<open>RotateRight\<close> is applied only to nodes with a
  left child and \<open>RotateLeft\<close> only to nodes with a right child, so \<open>Insert\<close> never fails.
  Inserting \<open>[5, 5]\<close> three times: the first two calls return; in the third the root has
  balance \<open>-2\<close>, \<open>i.low > node->right->interval.low\<close> is false (\<open>5 > 5\<close>), and
  \<open>RotateRight(node->right)\<close> runs on a node without a left child, where
  \<open>newRoot->right\<close> dereferences a null pointer.
\<close>

theorem Insert_equal_low_null_dereference:
  "calls IntervalTree_new [Call_Insert_low_high (5::int) 5 None, Call_Insert_low_high 5 5 None]
     = Some \<lparr>Root = Node (Interval_new 5 5) 5 Null (Node (Interval_new 5 5) 5 Null Null None) None,
             size_field = 2\<rparr>
   \<and> Insert_low_high
        \<lparr>Root = Node (Interval_new (5::int) 5) 5 Null (Node (Interval_new 5 5) 5 Null Null None) None,
         size_field = 2\<rparr> 5 5 None = Null_dereference
   \<and> RotateRight (Node (Interval_new (5::int) 5) 5 Null (Node (Interval_new 5 5) 5 Null Null None) None)
      = None"
  by (simp add: eval_defs)



text \<open>
  C8 (rejection). For every tree and every pair with \<open>low > high\<close>, both overloads of
  \<open>Insert\<close> throw \<open>std::invalid_argument\<close> with the tree in the state it had before the
  call: the nodes, their intervals and payloads, and \<open>size\<close> are unchanged, and a client
  that catches the exception goes on with the same tree.
\<close>

theorem Insert_rejects_invalid_interval:
  "hi < lo \<Longrightarrow>
     Insert_low_high t lo hi dat = Thrown_invalid_argument t
     \<and> Insert t (Interval_new lo hi) dat = Thrown_invalid_argument t
     \<and> calls t [Call_Insert_low_high lo hi dat] = Some t"
  by (simp add: Insert_low_high_def Insert_def Interval_new_def)

theorem Insert_rejects_invalid_interval_witness:
  "(2::int) < 5
   \<and> Insert_low_high
        \<lparr>Root = Node (Interval_new (1::int) 3) 8 Null (Node (Interval_new 5 8) 8 Null Null (Some 7)) None,
         size_field = 2\<rparr> 5 2 None
      = Thrown_invalid_argument
        \<lparr>Root = Node (Interval_new (1::int) 3) 8 Null (Node (Interval_new 5 8) 8 Null Null (Some 7)) None,
         size_field = 2\<rparr>"
proof -
  have h: "(2::int) < 5" by simp
  from Insert_rejects_invalid_interval [OF h] h show ?thesis by simp
qed

text \<open>
  C9 (\<open>MaxHighOverlapping\<close>). The claim: \<open>MaxHighOverlapping(lo, hi)\<close> returns the
  greatest \<open>high\<close> among the stored intervals that overlap the range, and the type's
  minimum representable value when none does. The running maximum starts from
  \<open>std::numeric_limits<T>::min()\<close> (commented "the smallest possible value of type T"),
  which for a floating-point \<open>T\<close> is the smallest positive normalised value, not the
  least one. On an \<open>IntervalTree<double>\<close>, after \<open>Insert(-5, -1)\<close> and
  \<open>Insert(-9.5, -2.25)\<close> both stored intervals overlap \<open>(-10, 0)\<close>, the greatest
  overlapping \<open>high\<close> is \<open>-1\<close>, and \<open>MaxHighOverlapping(-10, 0)\<close> returns \<open>2^-1022\<close>;
  on the empty tree it returns \<open>2^-1022\<close> as well, which is above the representable
  \<open>-1\<close>. (When the start value is at most every overlapping \<open>high\<close>, as for the
  integer types, the result is as claimed: \<open>MaxHighOverlapping_least_start\<close>.)
\<close>

theorem MaxHighOverlapping_double_start_too_high:
  "map_option
     (\<lambda>t. (MaxHighOverlapping numeric_limits_double_min t (- 10) 0,
           overlapping_entries t (- 10) 0))
     (calls IntervalTree_new
        [Call_Insert_low_high (- 5) (- 1) None, Call_Insert_low_high (- 19 / 2) (- 9 / 4) None])
   = Some (numeric_limits_double_min,
       [(Interval_new (- 19 / 2) (- 9 / 4), None), (Interval_new (- 5) (- 1), None)])
   \<and> MaxHighOverlapping numeric_limits_double_min IntervalTree_new (- 10) 0
       = numeric_limits_double_min
   \<and> - 1 < numeric_limits_double_min"
proof -
  have pos: "0 < numeric_limits_double_min"
    by (simp add: numeric_limits_double_min_def)
  then have m1: "max numeric_limits_double_min (- 1) = numeric_limits_double_min"
    and m2: "max numeric_limits_double_min (- (9 / 4)) = numeric_limits_double_min"
    by (simp_all add: max_def)
  from pos have lt: "- 1 < numeric_limits_double_min" by simp
  have run: "calls IntervalTree_new
        [Call_Insert_low_high (- 5 :: real) (- 1) None,
         Call_Insert_low_high (- 19 / 2) (- 9 / 4) None]
      = Some \<lparr>Root = Node (Interval_new (- 5) (- 1)) (- 1)
                (Node (Interval_new (- 19 / 2) (- 9 / 4)) (- 9 / 4) Null Null None) Null None,
              size_field = 2 :: 64 word\<rparr>"
    by (simp add: eval_defs)
  have "MaxHighOverlapping numeric_limits_double_min
      \<lparr>Root = Node (Interval_new (- 5) (- 1)) (- 1)
                (Node (Interval_new (- 19 / 2) (- 9 / 4)) (- 9 / 4) Null Null None) Null None,
              size_field = 2 :: 64 word\<rparr> (- 10) 0 = numeric_limits_double_min"
    by (simp add: MaxHighOverlapping_def Interval_new_def Let_def m1 m2)
  moreover have "overlapping_entries
      \<lparr>Root = Node (Interval_new (- 5) (- 1)) (- 1)
                (Node (Interval_new (- 19 / 2) (- 9 / 4)) (- 9 / 4) Null Null None) Null None,
              size_field = 2 :: 64 word\<rparr> (- 10) 0
      = [(Interval_new (- 19 / 2) (- 9 / 4), None), (Interval_new (- 5 :: real) (- 1), None)]"
    by (simp add: overlapping_entries_def overlaps_range_def Interval_new_def)
  moreover have "MaxHighOverlapping numeric_limits_double_min IntervalTree_new (- 10) 0
       = numeric_limits_double_min"
    by (simp add: MaxHighOverlapping_def IntervalTree_new_def)
  ultimately show ?thesis using run lt by simp
qed

text \<open>
  C10 (\<open>ToString\<close>). For every tree reached by public calls, \<open>ToString()\<close> is the
  concatenation of \<open>"[low, high] "\<close> over the stored intervals in in-order, and the \<open>low\<close>
  bounds are ascending in that order. After inserting \<open>(1, 3)\<close>, \<open>(5, 8)\<close>, \<open>(2, 6)\<close>,
  \<open>(15, 20)\<close> into the empty tree of \<open>int\<close> it returns
  \<open>"[1, 3] [2, 6] [5, 8] [15, 20] "\<close>.
\<close>

theorem ToString_in_order:
  "(calls IntervalTree_new cs = Some t \<longrightarrow>
      ToString put t = concat (map (render_interval put) (map fst (entries (Root t))))
      \<and> sorted (lows (Root t)))
   \<and> map_option (ToString put_int)
       (calls IntervalTree_new
          [Call_Insert_low_high 1 3 None, Call_Insert_low_high 5 8 None,
           Call_Insert_low_high 2 6 None, Call_Insert_low_high 15 20 None])
     = Some ''[1, 3] [2, 6] [5, 8] [15, 20] ''"
proof -
  have "sorted (lows (Root t))" if "calls IntervalTree_new cs = Some t"
    using calls_new_well_formed [OF that] by (simp add: well_formed_def)
  moreover have "ToString put t = concat (map (render_interval put) (map fst (entries (Root t))))"
    by (simp add: ToString_def ToString_node_entries)
  moreover have "map_option (ToString put_int)
       (calls IntervalTree_new
          [Call_Insert_low_high 1 3 None, Call_Insert_low_high 5 8 None,
           Call_Insert_low_high 2 6 None, Call_Insert_low_high 15 20 None])
     = Some ''[1, 3] [2, 6] [5, 8] [15, 20] ''"
    by (simp add: eval_defs put_int_def digit_char_def)
  ultimately show ?thesis by blast
qed

theorem ToString_in_order_witness:
  "calls IntervalTree_new
     [Call_Insert_low_high (1::int) 3 None, Call_Insert_low_high 5 8 (Some 7),
      Call_Insert_low_high 2 6 None, Call_Insert_low_high 15 20 None,
      Call_Remove (Interval_new 5 8), Call_Update (Interval_new 2 6) (Interval_new 4 30) None,
      Call_Insert_low_high 9 2 None]
    = Some \<lparr>Root = Node (Interval_new 4 30) 30 (Node (Interval_new 1 3) 3 Null Null None)
               (Node (Interval_new 15 20) 20 Null Null None) None, size_field = 3\<rparr>
   \<and> ToString put_int
        \<lparr>Root = Node (Interval_new 4 30) 30 (Node (Interval_new 1 3) 3 Null Null None)
               (Node (Interval_new 15 20) 20 Null Null None) None, size_field = 3\<rparr>
      = ''[1, 3] [4, 30] [15, 20] ''
   \<and> sorted (lows (Node (Interval_new (4::int) 30) 30 (Node (Interval_new 1 3) 3 Null Null None)
               (Node (Interval_new 15 20) 20 Null Null None) None))"
proof -
  let ?t = "\<lparr>Root = Node (Interval_new (4::int) 30) 30 (Node (Interval_new 1 3) 3 Null Null None)
               (Node (Interval_new 15 20) 20 Null Null None) None, size_field = 3\<rparr>"
  have run: "calls IntervalTree_new
     [Call_Insert_low_high (1::int) 3 None, Call_Insert_low_high 5 8 (Some 7),
      Call_Insert_low_high 2 6 None, Call_Insert_low_high 15 20 None,
      Call_Remove (Interval_new 5 8), Call_Update (Interval_new 2 6) (Interval_new 4 30) None,
      Call_Insert_low_high 9 2 None] = Some ?t"
    by (simp add: eval_defs)
  have "ToString put_int ?t = concat (map (render_interval put_int) (map fst (entries (Root ?t))))
      \<and> sorted (lows (Root ?t))"
    by (rule mp [OF conjunct1 [OF ToString_in_order] run])
  then have "ToString put_int ?t = ''[1, 3] [4, 30] [15, 20] '' \<and> sorted (lows (Root ?t))"
    by (simp add: render_interval_def put_int_def digit_char_def Interval_new_def)
  with run show ?thesis by simp
qed

end
